theory Spec2Isabelle
  imports Main
begin

section \<open>The chat client of KPI2KVI: assembling one reply from a streamed turn\<close>

text \<open>
  The development embeds \<^verbatim>\<open>handleSendMessage\<close> of the streaming front end (the
  component \<^verbatim>\<open>App\<close> with the \<^verbatim>\<open>/api/chat/stream\<close> request) and, for the
  submission guard, its non-streaming sibling in \<^verbatim>\<open>frontend/src/App.tsx\<close>.

  Text is modelled by HOL strings; a character stands for a code unit in the range 0..255.

  React applies the state updates of the handler in the order in which it queues them.
  The updaters passed to \<^verbatim>\<open>setMessages\<close> read \<^verbatim>\<open>completeResponse\<close> when they
  run; since every assignment to that variable is followed, in the same branch, by a
  queued update that writes it into the turn's message, the store that is rendered after
  a sequence of events is the one obtained by applying each update when it is queued.
  A run of the handler is therefore modelled as a sequence of state transformations.
\<close>

subsection \<open>Data\<close>

datatype sender = user | ai

record Message =
  id_msg :: string
  text_msg :: string
  sender_msg :: sender

text \<open>
  The React state the handler reads and writes. (\<^verbatim>\<open>healthStatus\<close> and
  \<^verbatim>\<open>rotation\<close> are never touched by it and are left out.)
\<close>

record app =
  hasStarted :: bool
  inputValue :: string
  messages :: "Message list"
  isTyping :: bool
  sessionId :: "string option"

text \<open>The three \<^verbatim>\<open>let\<close> variables of one call of the handler.\<close>

record turn =
  completeResponse :: string
  currentAgentContent :: string
  aiMessageAdded :: bool

text \<open>
  A parsed payload \<^verbatim>\<open>eventData\<close> with one of the eight types of the
  \<^verbatim>\<open>switch\<close>. Fields are the strings the protocol makes them; an optional field is
  \<open>None\<close> when the payload does not carry it. The fields of \<open>Status\<close>,
  \<open>AgentComplete\<close> and the first two of \<open>Transition\<close> are only written to the console.
\<close>

datatype event =
    Connected "string option"
  | Status "string option"
  | Content string
  | AgentComplete "string option"
  | Transition "string option" "string option" "string option"
  | Complete
  | Done
  | Error "string option"

text \<open>The body of the POST request.\<close>

record request =
  message :: string
  session_id :: "string option"

text \<open>
  What the transport delivers: \<^verbatim>\<open>fetch\<close> rejects, the response is not
  \<^verbatim>\<open>ok\<close>, the response has no body reader, or the reader yields a finite sequence
  of decoded chunks and then either reports \<^verbatim>\<open>done\<close> or rejects.
\<close>

datatype stream_end = EndOfStream | ReadFailure

datatype response =
    FetchRejected
  | HttpError
  | NoBodyReader
  | Body "string list" stream_end

subsection \<open>JavaScript helpers\<close>

text \<open>Truthiness of an optional string: \<^verbatim>\<open>undefined\<close>, \<^verbatim>\<open>null\<close> and
  the empty string are falsy.\<close>

definition truthy :: "string option \<Rightarrow> bool" where
  "truthy v = (case v of None \<Rightarrow> False | Some s \<Rightarrow> s \<noteq> [])"

text \<open>\<^verbatim>\<open>v || d\<close> on an optional string.\<close>

definition or_default :: "string option \<Rightarrow> string \<Rightarrow> string" where
  "or_default v d = (case v of None \<Rightarrow> d | Some s \<Rightarrow> if s \<noteq> [] then s else d)"

text \<open>\<^verbatim>\<open>String.prototype.trim\<close>: the white space and line terminators among the
  code units 0..255.\<close>

definition is_space :: "char \<Rightarrow> bool" where
  "is_space c = (c = CHR 0x09 \<or> c = CHR 0x0A \<or> c = CHR 0x0B \<or> c = CHR 0x0C \<or>
     c = CHR 0x0D \<or> c = CHR 0x20 \<or> c = CHR 0xA0)"

definition trim :: "string \<Rightarrow> string" where
  "trim s = rev (dropWhile is_space (rev (dropWhile is_space s)))"

text \<open>\<^verbatim>\<open>Number.prototype.toString\<close> on a clock reading (a natural number).\<close>

fun toString :: "nat \<Rightarrow> string" where
  "toString n =
     (if n < 10 then [''0123456789'' ! n]
      else toString (n div 10) @ [''0123456789'' ! (n mod 10)])"

declare toString.simps [simp del]

text \<open>\<^verbatim>\<open>chunk.split('\n')\<close>: the pieces between line feeds; the last piece is what
  follows the last line feed (the whole chunk when there is none).\<close>

fun split_lines :: "string \<Rightarrow> string list" where
  "split_lines [] = [[]]"
| "split_lines (c # cs) =
     (if c = CHR 0x0A then [] # split_lines cs
      else (case split_lines cs of
              [] \<Rightarrow> [[c]]
            | l # ls \<Rightarrow> (c # l) # ls))"

subsection \<open>The event switch\<close>

text \<open>
  The block that the \<^verbatim>\<open>agent_complete\<close>, \<^verbatim>\<open>transition\<close> and
  \<^verbatim>\<open>complete\<close> cases share word for word: append the turn's message on the first
  call, rewrite the text of the messages with the turn's id afterwards.
\<close>

definition commit :: "string \<Rightarrow> app \<times> turn \<Rightarrow> app \<times> turn" where
  "commit aiMsgId st =
     (case st of (a, t) \<Rightarrow>
        if \<not> aiMessageAdded t
        then (a\<lparr>messages := messages a @
                 [\<lparr>id_msg = aiMsgId, text_msg = completeResponse t, sender_msg = ai\<rparr>]\<rparr>,
              t\<lparr>aiMessageAdded := True\<rparr>)
        else (a\<lparr>messages :=
                 map (\<lambda>m. if id_msg m = aiMsgId then m\<lparr>text_msg := completeResponse t\<rparr> else m)
                   (messages a)\<rparr>,
              t))"

definition fallback_text :: string where
  "fallback_text = ''An error occurred during processing.''"

text \<open>
  One pass through the \<^verbatim>\<open>switch\<close>. \<open>sid\<close> is the value of \<^verbatim>\<open>sessionId\<close>
  that the handler's closure captured when it was called: calls of
  \<^verbatim>\<open>setSessionId\<close> change the React state, not this constant.
\<close>

fun handleEvent :: "string option \<Rightarrow> string \<Rightarrow> event \<Rightarrow> app \<times> turn \<Rightarrow> app \<times> turn" where
  "handleEvent sid aiMsgId (Connected sess) (a, t) =
     (if \<not> truthy sid \<and> truthy sess then (a\<lparr>sessionId := sess\<rparr>, t) else (a, t))"
| "handleEvent sid aiMsgId (Status m) (a, t) = (a\<lparr>isTyping := True\<rparr>, t)"
| "handleEvent sid aiMsgId (Content delta) (a, t) =
     (a, t\<lparr>currentAgentContent := currentAgentContent t @ delta\<rparr>)"
| "handleEvent sid aiMsgId (AgentComplete agent) (a, t) =
     (case commit aiMsgId
             (a, t\<lparr>completeResponse := completeResponse t @ currentAgentContent t\<rparr>) of
        (a', t') \<Rightarrow> (a', t'\<lparr>currentAgentContent := []\<rparr>))"
| "handleEvent sid aiMsgId (Transition from_agent to_agent m) (a, t) =
     (case m of
        None \<Rightarrow> (a, t)
      | Some s \<Rightarrow>
          if s \<noteq> []
          then commit aiMsgId (a, t\<lparr>completeResponse := completeResponse t @ s\<rparr>)
          else (a, t))"
| "handleEvent sid aiMsgId Complete (a, t) =
     (case (if currentAgentContent t \<noteq> []
            then commit aiMsgId
                   (a, t\<lparr>completeResponse := completeResponse t @ currentAgentContent t\<rparr>)
            else (a, t)) of
        (a', t') \<Rightarrow> (a'\<lparr>isTyping := False\<rparr>, t'))"
| "handleEvent sid aiMsgId Done (a, t) = (a\<lparr>isTyping := False\<rparr>, t)"
| "handleEvent sid aiMsgId (Error m) (a, t) =
     ((if \<not> aiMessageAdded t
       then a\<lparr>messages := messages a @
              [\<lparr>id_msg = aiMsgId, text_msg = or_default m fallback_text, sender_msg = ai\<rparr>]\<rparr>
       else a)\<lparr>isTyping := False\<rparr>,
      t)"

fun processEvents :: "string option \<Rightarrow> string \<Rightarrow> event list \<Rightarrow> app \<times> turn \<Rightarrow> app \<times> turn" where
  "processEvents sid aiMsgId [] st = st"
| "processEvents sid aiMsgId (e # es) st = processEvents sid aiMsgId es (handleEvent sid aiMsgId e st)"

subsection \<open>Lines, chunks and the read loop\<close>

text \<open>
  \<open>parse\<close> stands for \<^verbatim>\<open>JSON.parse\<close> followed by the selection of a
  \<^verbatim>\<open>case\<close>: it gives \<open>None\<close> when \<^verbatim>\<open>JSON.parse\<close> throws, when reading
  \<^verbatim>\<open>eventData.type\<close> throws, and when no \<^verbatim>\<open>case\<close> matches the type. In the
  first two situations the \<^verbatim>\<open>catch\<close> inside the loop only logs; in the third the
  \<^verbatim>\<open>switch\<close> does nothing.
\<close>

definition handleLine ::
  "(string \<Rightarrow> event option) \<Rightarrow> string option \<Rightarrow> string \<Rightarrow> string \<Rightarrow> app \<times> turn \<Rightarrow> app \<times> turn" where
  "handleLine parse sid aiMsgId line st =
     (if take 6 line = ''data: ''
      then (case parse (drop 6 line) of
              None \<Rightarrow> st
            | Some ev \<Rightarrow> handleEvent sid aiMsgId ev st)
      else st)"

fun processLines ::
  "(string \<Rightarrow> event option) \<Rightarrow> string option \<Rightarrow> string \<Rightarrow> string list \<Rightarrow> app \<times> turn \<Rightarrow> app \<times> turn" where
  "processLines parse sid aiMsgId [] st = st"
| "processLines parse sid aiMsgId (l # ls) st =
     processLines parse sid aiMsgId ls (handleLine parse sid aiMsgId l st)"

text \<open>
  The \<^verbatim>\<open>while (true)\<close> loop over \<^verbatim>\<open>reader.read()\<close>. \<open>Inr\<close> is the normal
  exit through \<^verbatim>\<open>break\<close>; \<open>Inl\<close> is a rejected read, with the state reached when
  it was thrown.
\<close>

fun readLoop ::
  "(string \<Rightarrow> event option) \<Rightarrow> string option \<Rightarrow> string \<Rightarrow> string list \<Rightarrow> stream_end \<Rightarrow>
     app \<times> turn \<Rightarrow> (app \<times> turn) + (app \<times> turn)" where
  "readLoop parse sid aiMsgId [] EndOfStream (a, t) = Inr (a\<lparr>isTyping := False\<rparr>, t)"
| "readLoop parse sid aiMsgId [] ReadFailure st = Inl st"
| "readLoop parse sid aiMsgId (chunk # chunks) e st =
     readLoop parse sid aiMsgId chunks e (processLines parse sid aiMsgId (split_lines chunk) st)"

text \<open>The \<^verbatim>\<open>try\<close> block after the request has been answered.\<close>

fun tryBlock ::
  "(string \<Rightarrow> event option) \<Rightarrow> string option \<Rightarrow> string \<Rightarrow> response \<Rightarrow>
     app \<times> turn \<Rightarrow> (app \<times> turn) + (app \<times> turn)" where
  "tryBlock parse sid aiMsgId FetchRejected st = Inl st"
| "tryBlock parse sid aiMsgId HttpError st = Inl st"
| "tryBlock parse sid aiMsgId NoBodyReader st = Inl st"
| "tryBlock parse sid aiMsgId (Body chunks e) st = readLoop parse sid aiMsgId chunks e st"

definition connection_error_text :: string where
  "connection_error_text =
     ''Sorry, I encountered an error connecting to the backend. Please check the console for details.''"

definition errorMsg :: "string \<Rightarrow> Message" where
  "errorMsg aiMsgId = \<lparr>id_msg = aiMsgId, text_msg = connection_error_text, sender_msg = ai\<rparr>"

text \<open>The outer \<^verbatim>\<open>catch\<close> block.\<close>

definition catchBlock :: "string \<Rightarrow> app \<times> turn \<Rightarrow> app" where
  "catchBlock aiMsgId st =
     (case st of (a, t) \<Rightarrow>
        a\<lparr>messages :=
             (if \<not> aiMessageAdded t then messages a @ [errorMsg aiMsgId]
              else map (\<lambda>m. if id_msg m = aiMsgId then errorMsg aiMsgId else m) (messages a)),
          isTyping := False\<rparr>)"

text \<open>
  The handler. \<open>now1\<close> and \<open>now2\<close> are the two readings of \<^verbatim>\<open>Date.now()\<close>,
  \<open>fetch\<close> is the backend seen from the client. The result is the new React state and
  the requests that were issued.
\<close>

definition handleSendMessage ::
  "(string \<Rightarrow> event option) \<Rightarrow> nat \<Rightarrow> nat \<Rightarrow> (request \<Rightarrow> response) \<Rightarrow> app \<Rightarrow> app \<times> request list" where
  "handleSendMessage parse now1 now2 fetch a =
     (if trim (inputValue a) = [] then (a, [])
      else
        let userMsg = \<lparr>id_msg = toString now1, text_msg = inputValue a, sender_msg = user\<rparr>;
            a1 = a\<lparr>messages := messages a @ [userMsg], inputValue := [],
                   hasStarted := True, isTyping := True\<rparr>;
            aiMsgId = toString (now2 + 1);
            t0 = \<lparr>completeResponse = [], currentAgentContent = [], aiMessageAdded = False\<rparr>;
            req = \<lparr>message = inputValue a, session_id = sessionId a\<rparr>
        in ((case tryBlock parse (sessionId a) aiMsgId (fetch req) (a1, t0) of
               Inr (a', t') \<Rightarrow> a'
             | Inl st \<Rightarrow> catchBlock aiMsgId st),
            [req]))"

text \<open>
  The handler of \<^verbatim>\<open>frontend/src/App.tsx\<close>, which posts to \<^verbatim>\<open>/api/chat\<close>
  and reads one JSON answer. \<open>now3\<close> is the reading of \<^verbatim>\<open>Date.now()\<close> taken
  when the answer (or the failure) is handled.
\<close>

datatype reply =
    ReplyRejected
  | ReplyHttpError
  | ReplyNotJson
  | Reply string "string option"

definition handleSendMessage_App ::
  "nat \<Rightarrow> nat \<Rightarrow> (request \<Rightarrow> reply) \<Rightarrow> app \<Rightarrow> app \<times> request list" where
  "handleSendMessage_App now1 now3 fetch a =
     (if trim (inputValue a) = [] then (a, [])
      else
        let userMsg = \<lparr>id_msg = toString now1, text_msg = inputValue a, sender_msg = user\<rparr>;
            a1 = a\<lparr>messages := messages a @ [userMsg], inputValue := [],
                   hasStarted := True, isTyping := True\<rparr>;
            req = \<lparr>message = inputValue a, session_id = sessionId a\<rparr>
        in ((case fetch req of
               Reply r sess \<Rightarrow>
                 (if \<not> truthy (sessionId a) \<and> truthy sess then a1\<lparr>sessionId := sess\<rparr> else a1)
                   \<lparr>messages := messages a1 @
                      [\<lparr>id_msg = toString (now3 + 1), text_msg = r, sender_msg = ai\<rparr>],
                    isTyping := False\<rparr>
             | _ \<Rightarrow>
                 a1\<lparr>messages := messages a1 @ [errorMsg (toString (now3 + 1))],
                    isTyping := False\<rparr>),
            [req]))"

subsection \<open>A reader for the frames of the protocol\<close>

text \<open>
  \<^verbatim>\<open>JSON.parse\<close> belongs to the platform. The general results below hold for every
  \<open>parse\<close>; the scenarios on concrete streams use \<open>parseFrame\<close>, a reader of JSON text
  (RFC 8259: white space, the three literals, numbers, strings with escapes, arrays and
  objects to any depth) followed by the selection of the event. A number is kept as its
  lexeme. An escape \<^verbatim>\<open>\uXXXX\<close> above \<^verbatim>\<open>00FF\<close> has no image among the characters
  of the model and is refused. The first argument of \<open>parse_value\<close> bounds the number of
  nested calls; of two calls nested in each other at least one consumes a character, so
  the bound given by \<open>JSON_parse\<close>, above twice the length of the text, is never used up
  (\<open>JSON_parse_any_bound\<close> below: every larger bound gives the same result).
\<close>

datatype json = JNull | JBool bool | JNum string | JStr string
  | JArr "json list" | JObj "(string \<times> json) list"

definition is_ws :: "char \<Rightarrow> bool" where
  "is_ws c = (c = CHR 0x20 \<or> c = CHR 0x09 \<or> c = CHR 0x0A \<or> c = CHR 0x0D)"

definition skip_ws :: "string \<Rightarrow> string" where
  "skip_ws s = dropWhile is_ws s"

definition is_digit :: "char \<Rightarrow> bool" where
  "is_digit c = (c \<in> set ''0123456789'')"

definition hex_val :: "char \<Rightarrow> nat option" where
  "hex_val c = map_of (zip ''0123456789abcdefABCDEF'' ([0 ..< 16] @ [10 ..< 16])) c"

definition unescape :: "char \<Rightarrow> char option" where
  "unescape c = map_of
     [(CHR 0x22, CHR 0x22), (CHR 0x5C, CHR 0x5C), (CHR ''/'', CHR ''/''),
      (CHR ''b'', CHR 0x08), (CHR ''f'', CHR 0x0C), (CHR ''n'', CHR 0x0A),
      (CHR ''r'', CHR 0x0D), (CHR ''t'', CHR 0x09)] c"

fun hex4 :: "string \<Rightarrow> nat option" where
  "hex4 [h1, h2, h3, h4] =
     (case (hex_val h1, hex_val h2, hex_val h3, hex_val h4) of
        (Some a, Some b, Some c, Some d) \<Rightarrow> Some (((a * 16 + b) * 16 + c) * 16 + d)
      | _ \<Rightarrow> None)"
| "hex4 _ = None"

function parse_chars :: "string \<Rightarrow> string \<Rightarrow> (string \<times> string) option" where
  "parse_chars acc [] = None"
| "parse_chars acc (c # cs) =
     (if c = CHR 0x22 then Some (rev acc, cs)
      else if c = CHR 0x5C then
        (case cs of
           [] \<Rightarrow> None
         | e # cs' \<Rightarrow>
             if e = CHR ''u'' then
               (case hex4 (take 4 cs') of
                  None \<Rightarrow> None
                | Some n \<Rightarrow> if n < 256 then parse_chars (char_of n # acc) (drop 4 cs') else None)
             else
               (case unescape e of
                  None \<Rightarrow> None
                | Some x \<Rightarrow> parse_chars (x # acc) cs'))
      else if (of_char c :: nat) < 32 then None
      else parse_chars (c # acc) cs)"
  by pat_completeness auto
termination
  by (relation "measure (\<lambda>(acc, s). length s)") auto

definition digits1 :: "string \<Rightarrow> (string \<times> string) option" where
  "digits1 s = (if takeWhile is_digit s = [] then None
                else Some (takeWhile is_digit s, dropWhile is_digit s))"

definition parse_int_part :: "string \<Rightarrow> (string \<times> string) option" where
  "parse_int_part s =
     (case s of
        [] \<Rightarrow> None
      | c # cs \<Rightarrow> if c = CHR ''0'' then Some (''0'', cs) else digits1 s)"

definition parse_frac :: "string \<Rightarrow> (string \<times> string) option" where
  "parse_frac s =
     (case s of
        [] \<Rightarrow> Some ([], s)
      | c # cs \<Rightarrow>
          if c = CHR ''.'' then map_option (\<lambda>(d, r). (c # d, r)) (digits1 cs)
          else Some ([], s))"

definition parse_exp :: "string \<Rightarrow> (string \<times> string) option" where
  "parse_exp s =
     (case s of
        [] \<Rightarrow> Some ([], s)
      | c # cs \<Rightarrow>
          if c = CHR ''e'' \<or> c = CHR ''E'' then
            (case cs of
               [] \<Rightarrow> None
             | g # gs \<Rightarrow>
                 if g = CHR ''+'' \<or> g = CHR ''-''
                 then map_option (\<lambda>(d, r). (c # g # d, r)) (digits1 gs)
                 else map_option (\<lambda>(d, r). (c # d, r)) (digits1 cs))
          else Some ([], s))"

definition parse_number :: "string \<Rightarrow> (string \<times> string) option" where
  "parse_number s =
     (let (sign, s0) = (case s of [] \<Rightarrow> ([], s) | c # cs \<Rightarrow> if c = CHR ''-'' then ([c], cs) else ([], s))
      in case parse_int_part s0 of
           None \<Rightarrow> None
         | Some (i, s1) \<Rightarrow>
            (case parse_frac s1 of
               None \<Rightarrow> None
             | Some (f, s2) \<Rightarrow>
                (case parse_exp s2 of
                   None \<Rightarrow> None
                 | Some (x, s3) \<Rightarrow> Some (sign @ i @ f @ x, s3))))"

fun parse_value :: "nat \<Rightarrow> string \<Rightarrow> (json \<times> string) option"
  and parse_elements :: "nat \<Rightarrow> json list \<Rightarrow> string \<Rightarrow> (json \<times> string) option"
  and parse_members :: "nat \<Rightarrow> (string \<times> json) list \<Rightarrow> string \<Rightarrow> (json \<times> string) option" where
  "parse_value 0 s = None"
| "parse_value (Suc n) s =
     (case skip_ws s of
        [] \<Rightarrow> None
      | c # cs \<Rightarrow>
          if c = CHR ''{'' then
            (case skip_ws cs of
               [] \<Rightarrow> None
             | d # ds \<Rightarrow> if d = CHR ''}'' then Some (JObj [], ds) else parse_members n [] cs)
          else if c = CHR ''['' then
            (case skip_ws cs of
               [] \<Rightarrow> None
             | d # ds \<Rightarrow> if d = CHR '']'' then Some (JArr [], ds) else parse_elements n [] cs)
          else if c = CHR 0x22 then map_option (\<lambda>(x, r). (JStr x, r)) (parse_chars [] cs)
          else if take 4 (c # cs) = ''true'' then Some (JBool True, drop 3 cs)
          else if take 5 (c # cs) = ''false'' then Some (JBool False, drop 4 cs)
          else if take 4 (c # cs) = ''null'' then Some (JNull, drop 3 cs)
          else map_option (\<lambda>(x, r). (JNum x, r)) (parse_number (c # cs)))"
| "parse_elements 0 acc s = None"
| "parse_elements (Suc n) acc s =
     (case parse_value n s of
        None \<Rightarrow> None
      | Some (v, r) \<Rightarrow>
          (case skip_ws r of
             [] \<Rightarrow> None
           | c # cs \<Rightarrow>
               if c = CHR '','' then parse_elements n (acc @ [v]) cs
               else if c = CHR '']'' then Some (JArr (acc @ [v]), cs)
               else None))"
| "parse_members 0 acc s = None"
| "parse_members (Suc n) acc s =
     (case skip_ws s of
        [] \<Rightarrow> None
      | q # s1 \<Rightarrow>
          if q \<noteq> CHR 0x22 then None
          else
            (case parse_chars [] s1 of
               None \<Rightarrow> None
             | Some (k, s2) \<Rightarrow>
                 (case skip_ws s2 of
                    [] \<Rightarrow> None
                  | col # s3 \<Rightarrow>
                      if col \<noteq> CHR '':'' then None
                      else
                        (case parse_value n s3 of
                           None \<Rightarrow> None
                         | Some (v, r) \<Rightarrow>
                             (case skip_ws r of
                                [] \<Rightarrow> None
                              | c # cs \<Rightarrow>
                                  if c = CHR '','' then parse_members n (acc @ [(k, v)]) cs
                                  else if c = CHR ''}'' then Some (JObj (acc @ [(k, v)]), cs)
                                  else None)))))"

definition JSON_parse :: "string \<Rightarrow> json option" where
  "JSON_parse s =
     (case parse_value (2 * length s + 2) s of
        None \<Rightarrow> None
      | Some (v, r) \<Rightarrow> if skip_ws r = [] then Some v else None)"

text \<open>\<^verbatim>\<open>eventData.k\<close>: the last member named \<open>k\<close> of an object, nothing on any
  other value.\<close>

definition property :: "string \<Rightarrow> json \<Rightarrow> json option" where
  "property k v = (case v of JObj ms \<Rightarrow> map_of (rev ms) k | _ \<Rightarrow> None)"

definition str_property :: "string \<Rightarrow> json \<Rightarrow> string option" where
  "str_property k v = (case property k v of Some (JStr s) \<Rightarrow> Some s | _ \<Rightarrow> None)"

text \<open>
  The selection made by \<^verbatim>\<open>switch (eventData.type)\<close>, for payloads whose fields have
  the types of the protocol: the type is compared as a string, an optional field that is
  missing, \<^verbatim>\<open>null\<close> or not a string is read as absent, and a \<^verbatim>\<open>content\<close>
  payload without a string \<^verbatim>\<open>delta\<close>, which is not a frame of the protocol, is
  given no event.
\<close>

definition event_of :: "json \<Rightarrow> event option" where
  "event_of v =
     (case str_property ''type'' v of
        None \<Rightarrow> None
      | Some ty \<Rightarrow>
          if ty = ''connected'' then Some (Connected (str_property ''session_id'' v))
          else if ty = ''status'' then Some (Status (str_property ''message'' v))
          else if ty = ''content'' then map_option Content (str_property ''delta'' v)
          else if ty = ''agent_complete'' then Some (AgentComplete (str_property ''agent'' v))
          else if ty = ''transition'' then
            Some (Transition (str_property ''from_agent'' v) (str_property ''to_agent'' v)
                    (str_property ''message'' v))
          else if ty = ''complete'' then Some Complete
          else if ty = ''done'' then Some Done
          else if ty = ''error'' then Some (Error (str_property ''message'' v))
          else None)"

definition parseFrame :: "string \<Rightarrow> event option" where
  "parseFrame payload = (case JSON_parse payload of None \<Rightarrow> None | Some v \<Rightarrow> event_of v)"

subsection \<open>The events of a stream\<close>

text \<open>The event, if any, that a line contributes; the events of the lines of a chunk;
  the events of a sequence of chunks, each chunk split on its own.\<close>

definition event_of_line :: "(string \<Rightarrow> event option) \<Rightarrow> string \<Rightarrow> event option" where
  "event_of_line parse line = (if take 6 line = ''data: '' then parse (drop 6 line) else None)"

definition events_of_lines :: "(string \<Rightarrow> event option) \<Rightarrow> string list \<Rightarrow> event list" where
  "events_of_lines parse ls = List.map_filter (event_of_line parse) ls"

definition events_of_chunks :: "(string \<Rightarrow> event option) \<Rightarrow> string list \<Rightarrow> event list" where
  "events_of_chunks parse chunks = concat (map (\<lambda>c. events_of_lines parse (split_lines c)) chunks)"

text \<open>How the read loop is left once the chunks are used up.\<close>

fun leave :: "stream_end \<Rightarrow> app \<times> turn \<Rightarrow> (app \<times> turn) + (app \<times> turn)" where
  "leave EndOfStream (a, t) = Inr (a\<lparr>isTyping := False\<rparr>, t)"
| "leave ReadFailure st = Inl st"

text \<open>The state in which the handler enters its \<^verbatim>\<open>try\<close> block, and the id it
  gives the turn's message.\<close>

definition started :: "nat \<Rightarrow> app \<Rightarrow> app" where
  "started now1 a =
     a\<lparr>messages := messages a @
          [\<lparr>id_msg = toString now1, text_msg = inputValue a, sender_msg = user\<rparr>],
       inputValue := [], hasStarted := True, isTyping := True\<rparr>"

definition fresh_turn :: turn where
  "fresh_turn = \<lparr>completeResponse = [], currentAgentContent = [], aiMessageAdded = False\<rparr>"

definition ai_messages :: "app \<Rightarrow> Message list" where
  "ai_messages a = filter (\<lambda>m. sender_msg m = ai) (messages a)"

text \<open>The events that flush the buffer of the streaming agent.\<close>

fun flushes :: "event \<Rightarrow> bool" where
  "flushes (AgentComplete agent) = True"
| "flushes Complete = True"
| "flushes _ = False"

fun deltas :: "event list \<Rightarrow> string" where
  "deltas [] = []"
| "deltas (Content d # es) = d @ deltas es"
| "deltas (e # es) = deltas es"

text \<open>An application state used in the scenarios: nothing said yet, \<^verbatim>\<open>hi\<close> typed.\<close>

definition hi_app :: app where
  "hi_app = \<lparr>hasStarted = False, inputValue = ''hi'', messages = [], isTyping = False,
     sessionId = None\<rparr>"

text \<open>The same conversation once \<^verbatim>\<open>hi\<close> has been submitted at clock reading 1000,
  with a session bound beforehand, and with only blanks typed.\<close>

definition said_hi :: app where
  "said_hi = \<lparr>hasStarted = True, inputValue = [],
     messages = [\<lparr>id_msg = ''1000'', text_msg = ''hi'', sender_msg = user\<rparr>],
     isTyping = True, sessionId = None\<rparr>"

definition bound_app :: app where
  "bound_app = \<lparr>hasStarted = True, inputValue = ''hi'', messages = [], isTyping = False,
     sessionId = Some ''s1''\<rparr>"

definition blank_app :: app where
  "blank_app = \<lparr>hasStarted = False, inputValue = [CHR 0x20, CHR 0x09, CHR 0x20], messages = [],
     isTyping = False, sessionId = None\<rparr>"

text \<open>Whether an event, met in a given state of the turn, runs the commit block; whether
  some event of a sequence does.\<close>

fun commits :: "event \<Rightarrow> turn \<Rightarrow> bool" where
  "commits (AgentComplete agent) t = True"
| "commits (Transition from_agent to_agent m) t = truthy m"
| "commits Complete t = (currentAgentContent t \<noteq> [])"
| "commits e t = False"

fun any_commit :: "string option \<Rightarrow> string \<Rightarrow> event list \<Rightarrow> app \<times> turn \<Rightarrow> bool" where
  "any_commit sid aiMsgId [] st = False"
| "any_commit sid aiMsgId (e # es) st =
     (commits e (snd st) \<or> any_commit sid aiMsgId es (handleEvent sid aiMsgId e st))"

fun is_error :: "event \<Rightarrow> bool" where
  "is_error (Error m) = True"
| "is_error e = False"

section \<open>Properties\<close>

subsection \<open>Splitting, lines and events\<close>

lemma split_lines_not_Nil [simp]: "split_lines s \<noteq> []"
  by (induction s) (auto split: list.splits)

lemma split_lines_append_LF:
  "split_lines (xs @ CHR 0x0A # ys) = split_lines xs @ split_lines ys"
proof (induction xs)
  case Nil
  show ?case by simp
next
  case (Cons x xs)
  obtain l ls where s: "split_lines xs = l # ls"
    by (cases "split_lines xs") simp_all
  show ?case using Cons s by simp
qed

lemma split_lines_no_LF: "CHR 0x0A \<notin> set s \<Longrightarrow> split_lines s = [s]"
  by (induction s) auto

lemma processLines_append:
  "processLines parse sid aid (xs @ ys) st =
     processLines parse sid aid ys (processLines parse sid aid xs st)"
  by (induction xs arbitrary: st) simp_all

lemma processEvents_append:
  "processEvents sid aid (xs @ ys) st = processEvents sid aid ys (processEvents sid aid xs st)"
  by (induction xs arbitrary: st) simp_all

lemma handleLine_event:
  "handleLine parse sid aid l st =
     (case event_of_line parse l of None \<Rightarrow> st | Some ev \<Rightarrow> handleEvent sid aid ev st)"
  by (simp add: handleLine_def event_of_line_def)

lemma processLines_events:
  "processLines parse sid aid ls st = processEvents sid aid (events_of_lines parse ls) st"
  by (induction ls arbitrary: st)
     (simp_all add: events_of_lines_def handleLine_event split: option.splits)

lemma readLoop_events:
  "readLoop parse sid aid chunks e st =
     leave e (processEvents sid aid (events_of_chunks parse chunks) st)"
proof (induction chunks arbitrary: st)
  case Nil
  show ?case by (cases e; cases st) (simp_all add: events_of_chunks_def)
next
  case (Cons c cs)
  then show ?case
    by (simp add: events_of_chunks_def processLines_events processEvents_append)
qed

lemma event_of_line_bad:
  "take 6 line = ''data: '' \<Longrightarrow> parse (drop 6 line) = None \<Longrightarrow> event_of_line parse line = None"
  by (simp add: event_of_line_def)

lemma events_of_lines_Nil: "events_of_lines parse [] = []"
  by (simp add: events_of_lines_def)

lemma event_of_blank_line: "event_of_line parse [] = None"
  by (simp add: event_of_line_def)

lemma events_of_lines_append:
  "events_of_lines parse (xs @ ys) = events_of_lines parse xs @ events_of_lines parse ys"
  by (simp add: events_of_lines_def List.map_filter_def)

lemma events_of_lines_skip:
  "event_of_line parse l = None \<Longrightarrow> events_of_lines parse (l # ls) = events_of_lines parse ls"
  by (simp add: events_of_lines_def)

lemma events_of_lines_blank: "events_of_lines parse [[]] = []"
  by (simp add: events_of_lines_skip event_of_blank_line events_of_lines_Nil)

lemma events_of_chunks_append:
  "events_of_chunks parse (xs @ ys) = events_of_chunks parse xs @ events_of_chunks parse ys"
  by (simp add: events_of_chunks_def)

lemma events_of_chunks_Cons:
  "events_of_chunks parse (c # cs) =
     events_of_lines parse (split_lines c) @ events_of_chunks parse cs"
  by (simp add: events_of_chunks_def)

lemma bad_line_in_chunk:
  assumes "event_of_line parse line = None" "CHR 0x0A \<notin> set line"
  shows "events_of_lines parse (split_lines (line @ CHR 0x0A # c2)) =
           events_of_lines parse (split_lines c2)"
    and "events_of_lines parse (split_lines (c1 @ CHR 0x0A # line @ CHR 0x0A # c2)) =
           events_of_lines parse (split_lines (c1 @ CHR 0x0A # c2))"
  using assms
  by (simp_all add: split_lines_append_LF split_lines_no_LF events_of_lines_append
        events_of_lines_skip)

lemma events_of_whole_lines:
  assumes "\<forall>c \<in> set chunks. c \<noteq> [] \<longrightarrow> last c = CHR 0x0A"
  shows "events_of_chunks parse chunks = events_of_lines parse (split_lines (concat chunks))"
  using assms
proof (induction chunks)
  case Nil
  show ?case by (simp add: events_of_chunks_def events_of_lines_blank)
next
  case (Cons c cs)
  then have ih: "events_of_chunks parse cs = events_of_lines parse (split_lines (concat cs))"
    by simp
  show ?case
  proof (cases "c = []")
    case True
    then show ?thesis by (simp add: events_of_chunks_Cons ih events_of_lines_blank)
  next
    case False
    with Cons.prems have "last c = CHR 0x0A" by simp
    with False obtain b where c: "c = b @ [CHR 0x0A]"
      by (metis append_butlast_last_id)
    show ?thesis
      by (simp add: events_of_chunks_Cons ih c split_lines_append_LF
            events_of_lines_append events_of_lines_blank)
  qed
qed

lemma trim_empty_iff: "trim s = [] \<longleftrightarrow> (\<forall>c \<in> set s. is_space c)"
proof
  assume "trim s = []"
  then have "\<forall>c \<in> set (dropWhile is_space s). is_space c"
    by (simp add: trim_def)
  then have "dropWhile is_space s = []"
    by (cases "dropWhile is_space s") (auto simp: dropWhile_eq_Cons_conv)
  then show "\<forall>c \<in> set s. is_space c" by simp
next
  assume "\<forall>c \<in> set s. is_space c"
  then have d: "dropWhile is_space s = []" by simp
  show "trim s = []" unfolding trim_def d by simp
qed

subsection \<open>The frame reader\<close>

text \<open>Every part of the reader that returns a result has consumed input.\<close>

lemma skip_ws_length: "length (skip_ws s) \<le> length s"
  by (simp add: skip_ws_def length_dropWhile_le)

lemma skip_ws_Cons_length: "skip_ws s = c # cs \<Longrightarrow> length cs < length s"
  using skip_ws_length [of s] by simp

lemma parse_chars_length: "parse_chars acc s = Some (x, r) \<Longrightarrow> length r < length s"
proof (induction acc s arbitrary: x r rule: parse_chars.induct)
  case (1 acc)
  then show ?case by simp
next
  case (2 acc c cs)
  show ?case
  proof (cases "c = CHR 0x22")
    case True
    with "2.prems" show ?thesis by simp
  next
    case nq: False
    show ?thesis
    proof (cases "c = CHR 0x5C")
      case True
      show ?thesis
      proof (cases cs)
        case Nil
        with "2.prems" nq True show ?thesis by simp
      next
        case (Cons e cs')
        show ?thesis
        proof (cases "e = CHR ''u''")
          case u: True
          from "2.prems" nq True Cons u obtain n where
            n: "hex4 (take 4 cs') = Some n" "n < 256"
              "parse_chars (char_of n # acc) (drop 4 cs') = Some (x, r)"
            by (auto split: option.splits if_splits)
          have "length r < length (drop 4 cs')"
            using "2.IH"(1) [OF nq True Cons u n(1) n(2) n(3)] .
          then show ?thesis using Cons by simp
        next
          case nu: False
          from "2.prems" nq True Cons nu obtain y where
            y: "unescape e = Some y" "parse_chars (y # acc) cs' = Some (x, r)"
            by (auto split: option.splits)
          have "length r < length cs'"
            using "2.IH"(2) [OF nq True Cons nu y(1) y(2)] .
          then show ?thesis using Cons by simp
        qed
      qed
    next
      case nb: False
      from "2.prems" nq nb have p: "\<not> (of_char c :: nat) < 32" "parse_chars (c # acc) cs = Some (x, r)"
        by (auto split: if_splits)
      have "length r < length cs"
        using "2.IH"(3) [OF nq nb p(1) p(2)] .
      then show ?thesis by simp
    qed
  qed
qed

lemma digits1_length: "digits1 s = Some (d, r) \<Longrightarrow> length r < length s"
proof -
  assume a: "digits1 s = Some (d, r)"
  then have t: "takeWhile is_digit s \<noteq> []" and r: "r = dropWhile is_digit s"
    by (auto simp: digits1_def split: if_splits)
  have "length (takeWhile is_digit s) + length (dropWhile is_digit s) = length s"
    by (metis length_append takeWhile_dropWhile_id)
  with t r show ?thesis by (cases "takeWhile is_digit s") simp_all
qed

lemma parse_int_part_length: "parse_int_part s = Some (i, r) \<Longrightarrow> length r < length s"
  by (auto simp: parse_int_part_def split: list.splits if_splits dest: digits1_length)

lemma parse_frac_length: "parse_frac s = Some (f, r) \<Longrightarrow> length r \<le> length s"
  by (auto simp: parse_frac_def split: list.splits if_splits dest!: digits1_length)

lemma parse_exp_length: "parse_exp s = Some (x, r) \<Longrightarrow> length r \<le> length s"
  by (auto simp: parse_exp_def split: list.splits if_splits dest!: digits1_length)

lemma parse_number_length: "parse_number s = Some (x, r) \<Longrightarrow> length r < length s"
proof -
  assume a: "parse_number s = Some (x, r)"
  define s0 where "s0 = (case s of [] \<Rightarrow> s | c # cs \<Rightarrow> if c = CHR ''-'' then cs else s)"
  have s0: "length s0 \<le> length s" by (simp add: s0_def split: list.splits)
  from a obtain sg i s1 f s2 y where
    p: "parse_int_part s0 = Some (i, s1)" "parse_frac s1 = Some (f, s2)"
       "parse_exp s2 = Some (y, r)"
    by (auto simp: parse_number_def s0_def Let_def split: list.splits if_splits option.splits)
  from parse_int_part_length [OF p(1)] parse_frac_length [OF p(2)] parse_exp_length [OF p(3)] s0
  show ?thesis by simp
qed

lemma parse_lengths:
  "(\<forall>s v r. parse_value n s = Some (v, r) \<longrightarrow> length r < length s)
   \<and> (\<forall>acc s v r. parse_elements n acc s = Some (v, r) \<longrightarrow> length r < length s)
   \<and> (\<forall>acc s v r. parse_members n acc s = Some (v, r) \<longrightarrow> length r < length s)"
proof (induction n)
  case 0
  show ?case by simp
next
  case (Suc n)
  note ih_e = Suc.IH [THEN conjunct2, THEN conjunct1, rule_format]
  note ih_m = Suc.IH [THEN conjunct2, THEN conjunct2, rule_format]
  note ih_v = Suc.IH [THEN conjunct1, rule_format]
  have v: "length r < length s" if a: "parse_value (Suc n) s = Some (v, r)" for s v r
  proof (cases "skip_ws s")
    case Nil
    with a show ?thesis by simp
  next
    case (Cons c cs)
    then have l: "length cs < length s" by (rule skip_ws_Cons_length)
    have num: "length r' < length s" if "parse_number (c # cs) = Some (x, r')" for x r'
      using parse_number_length [OF that] l by simp
    from a Cons l num show ?thesis
      by (auto split: if_splits list.splits
            dest!: skip_ws_Cons_length ih_e ih_m parse_chars_length)
  qed
  have e: "length r < length s" if a: "parse_elements (Suc n) acc s = Some (v, r)" for acc s v r
  proof -
    from a obtain w r1 where w: "parse_value n s = Some (w, r1)"
      by (auto split: option.splits)
    then have l1: "length r1 < length s" by (rule ih_v)
    from a w obtain c cs where c: "skip_ws r1 = c # cs"
      by (auto split: list.splits)
    then have l2: "length cs < length r1" by (rule skip_ws_Cons_length)
    from a w c l1 l2 show ?thesis
      by (auto split: if_splits dest!: ih_e)
  qed
  have m: "length r < length s" if a: "parse_members (Suc n) acc s = Some (v, r)" for acc s v r
  proof -
    from a obtain q s1 where q: "skip_ws s = q # s1" "q = CHR 0x22"
      by (auto split: list.splits if_splits)
    then have l1: "length s1 < length s" by (intro skip_ws_Cons_length)
    from a q obtain k s2 where k: "parse_chars [] s1 = Some (k, s2)"
      by (auto split: option.splits)
    then have l2: "length s2 < length s1" by (rule parse_chars_length)
    from a q k obtain col s3 where col: "skip_ws s2 = col # s3" "col = CHR '':''"
      by (auto split: list.splits if_splits)
    then have l3: "length s3 < length s2" by (intro skip_ws_Cons_length)
    from a q k col obtain w r1 where w: "parse_value n s3 = Some (w, r1)"
      by (auto split: option.splits)
    then have l4: "length r1 < length s3" by (rule ih_v)
    from a q k col w obtain c cs where c: "skip_ws r1 = c # cs"
      by (auto split: list.splits)
    then have l5: "length cs < length r1" by (rule skip_ws_Cons_length)
    from a q k col w c l1 l2 l3 l4 l5 show ?thesis
      by (auto split: if_splits dest!: ih_m)
  qed
  from v e m show ?case by blast
qed

lemma parse_value_length: "parse_value n s = Some (v, r) \<Longrightarrow> length r < length s"
  using parse_lengths [of n] by blast

lemma parse_bound_suffices:
  "(\<forall>s m. 2 * length s < n \<longrightarrow> 2 * length s < m \<longrightarrow> parse_value n s = parse_value m s)
   \<and> (\<forall>acc s m. 2 * length s + 1 < n \<longrightarrow> 2 * length s + 1 < m \<longrightarrow>
          parse_elements n acc s = parse_elements m acc s)
   \<and> (\<forall>acc s m. 2 * length s + 1 < n \<longrightarrow> 2 * length s + 1 < m \<longrightarrow>
          parse_members n acc s = parse_members m acc s)"
proof (induction n)
  case 0
  show ?case by simp
next
  case (Suc n)
  note ih_v = Suc.IH [THEN conjunct1, rule_format]
  note ih_e = Suc.IH [THEN conjunct2, THEN conjunct1, rule_format]
  note ih_m = Suc.IH [THEN conjunct2, THEN conjunct2, rule_format]
  have v: "parse_value (Suc n) s = parse_value m s"
    if b: "2 * length s < Suc n" "2 * length s < m" for s m
  proof -
    from b(2) obtain m' where m: "m = Suc m'" by (cases m) simp_all
    show ?thesis
    proof (cases "skip_ws s")
      case Nil
      then show ?thesis by (simp add: m)
    next
      case (Cons c cs)
      then have l: "length cs < length s" by (rule skip_ws_Cons_length)
      have e: "parse_elements n [] cs = parse_elements m' [] cs"
        using b l m by (intro ih_e) simp_all
      have o: "parse_members n [] cs = parse_members m' [] cs"
        using b l m by (intro ih_m) simp_all
      show ?thesis by (simp add: m Cons e o split: list.split)
    qed
  qed
  have e: "parse_elements (Suc n) acc s = parse_elements m acc s"
    if b: "2 * length s + 1 < Suc n" "2 * length s + 1 < m" for acc s m
  proof -
    from b(2) obtain m' where m: "m = Suc m'" by (cases m) simp_all
    have pv: "parse_value n s = parse_value m' s"
      using b m by (intro ih_v) simp_all
    show ?thesis
    proof (cases "parse_value m' s")
      case None
      then show ?thesis by (simp add: m pv)
    next
      case (Some p)
      obtain w r1 where p: "p = (w, r1)" by (cases p)
      have l1: "length r1 < length s"
        using Some p by (intro parse_value_length [of m' s w r1]) simp
      show ?thesis
      proof (cases "skip_ws r1")
        case Nil
        then show ?thesis by (simp add: m pv Some p)
      next
        case (Cons c cs)
        then have l2: "length cs < length r1" by (rule skip_ws_Cons_length)
        have "parse_elements n (acc @ [w]) cs = parse_elements m' (acc @ [w]) cs"
          using b m l1 l2 by (intro ih_e) simp_all
        then show ?thesis by (simp add: m pv Some p Cons)
      qed
    qed
  qed
  have o: "parse_members (Suc n) acc s = parse_members m acc s"
    if b: "2 * length s + 1 < Suc n" "2 * length s + 1 < m" for acc s m
  proof -
    from b(2) obtain m' where m: "m = Suc m'" by (cases m) simp_all
    show ?thesis
    proof (cases "skip_ws s")
      case Nil
      then show ?thesis by (simp add: m)
    next
      case s1: (Cons q s1)
      then have l1: "length s1 < length s" by (rule skip_ws_Cons_length)
      show ?thesis
      proof (cases "parse_chars [] s1")
        case None
        then show ?thesis by (simp add: m s1)
      next
        case (Some p)
        obtain k s2 where p: "p = (k, s2)" by (cases p)
        have l2: "length s2 < length s1"
          using Some p by (intro parse_chars_length [of "[]" s1 k s2]) simp
        show ?thesis
        proof (cases "skip_ws s2")
          case Nil
          then show ?thesis by (simp add: m s1 Some p)
        next
          case s3: (Cons col s3)
          then have l3: "length s3 < length s2" by (rule skip_ws_Cons_length)
          have pv: "parse_value n s3 = parse_value m' s3"
            using b m l1 l2 l3 by (intro ih_v) simp_all
          show ?thesis
          proof (cases "parse_value m' s3")
            case None
            then show ?thesis by (simp add: m s1 Some p s3 pv)
          next
            case v: (Some pr)
            obtain w r1 where pr: "pr = (w, r1)" by (cases pr)
            have l4: "length r1 < length s3"
              using v pr by (intro parse_value_length [of m' s3 w r1]) simp
            show ?thesis
            proof (cases "skip_ws r1")
              case Nil
              then show ?thesis by (simp add: m s1 Some p s3 pv v pr)
            next
              case (Cons c cs)
              then have l5: "length cs < length r1" by (rule skip_ws_Cons_length)
              have "parse_members n (acc @ [(k, w)]) cs = parse_members m' (acc @ [(k, w)]) cs"
                using b m l1 l2 l3 l4 l5 by (intro ih_m) simp_all
              then show ?thesis by (simp add: m s1 Some p s3 pv v pr Cons)
            qed
          qed
        qed
      qed
    qed
  qed
  from v e o show ?case by blast
qed

text \<open>More than twice the length of the text is enough: a larger bound gives the same
  result, so \<open>JSON_parse\<close> never fails for want of nested calls.\<close>

lemma JSON_parse_any_bound:
  assumes "2 * length s < n"
  shows "JSON_parse s =
           (case parse_value n s of
              None \<Rightarrow> None
            | Some (v, r) \<Rightarrow> if skip_ws r = [] then Some v else None)"
proof -
  have "parse_value (2 * length s + 2) s = parse_value n s"
    using assms parse_bound_suffices [of "2 * length s + 2"] by simp
  then show ?thesis by (simp add: JSON_parse_def)
qed

text \<open>The frames of the protocol, and some payloads that give no event.\<close>

lemma parseFrame_reads_the_protocol:
  \<open>parseFrame ''{"type":"connected","session_id":"s1"}'' = Some (Connected (Some ''s1''))\<close>
  \<open>parseFrame ''{"type":"status","message":"Processing"}'' = Some (Status (Some ''Processing''))\<close>
  \<open>parseFrame ''{"type":"content","delta":"He"}'' = Some (Content ''He'')\<close>
  \<open>parseFrame ''{"type":"agent_complete","agent":"x"}'' = Some (AgentComplete (Some ''x''))\<close>
  \<open>parseFrame ''{"type":"transition","from_agent":"x","to_agent":"y","message":"Handing off"}'' =
     Some (Transition (Some ''x'') (Some ''y'') (Some ''Handing off''))\<close>
  \<open>parseFrame ''{"type":"transition","from_agent":"x","to_agent":"y"}'' =
     Some (Transition (Some ''x'') (Some ''y'') None)\<close>
  \<open>parseFrame ''{"type":"complete"}'' = Some Complete\<close>
  \<open>parseFrame ''{"type":"done"}'' = Some Done\<close>
  \<open>parseFrame ''{"type":"error","message":"boom"}'' = Some (Error (Some ''boom''))\<close>
  \<open>parseFrame '' { "type" : "error" , "code" : [1, -2.5e3, true, null, {"k": []}] } '' = Some (Error None)\<close>
  by code_simp+

lemma parseFrame_gives_no_event:
  \<open>parseFrame ''{"type":"content","de'' = None\<close>
  \<open>parseFrame ''{"type":"bogus","delta":"Z"}'' = None\<close>
  \<open>parseFrame ''{"delta":"Z"}'' = None\<close>
  \<open>parseFrame ''null'' = None\<close>
  \<open>parseFrame ''[DONE]'' = None\<close>
  \<open>parseFrame '''' = None\<close>
  by code_simp+

subsection \<open>The commit block\<close>

lemma commit_snd:
  "snd (commit aid (a, t)) = t\<lparr>aiMessageAdded := True\<rparr>"
  by (simp add: commit_def)

lemma commit_messages:
  "messages (fst (commit aid (a, t))) =
     (if aiMessageAdded t
      then map (\<lambda>m. if id_msg m = aid then m\<lparr>text_msg := completeResponse t\<rparr> else m) (messages a)
      else messages a @ [\<lparr>id_msg = aid, text_msg = completeResponse t, sender_msg = ai\<rparr>])"
  by (simp add: commit_def)

lemma ids_after_commit:
  "map id_msg (messages (fst (commit aid (a, t)))) =
     (if aiMessageAdded t then map id_msg (messages a) else map id_msg (messages a) @ [aid])"
  by (simp add: commit_def o_def if_distrib cong: if_cong)

lemma commit_keeps_id:
  assumes "aiMessageAdded t \<longrightarrow> aid \<in> set (map id_msg (messages a))"
    and "commit aid (a, t) = (a', t')"
  shows "aid \<in> set (map id_msg (messages a'))"
  using ids_after_commit [of aid a t] assms by (cases "aiMessageAdded t") simp_all

lemma handleEvent_has_message:
  assumes "aiMessageAdded t \<longrightarrow> aid \<in> set (map id_msg (messages a))"
    and "aiMessageAdded (snd (handleEvent sid aid e (a, t)))"
  shows "aid \<in> set (map id_msg (messages (fst (handleEvent sid aid e (a, t)))))"
proof (cases e)
  case (AgentComplete agent)
  let ?t = "t\<lparr>completeResponse := completeResponse t @ currentAgentContent t\<rparr>"
  obtain a' t' where c: "commit aid (a, ?t) = (a', t')" by (cases "commit aid (a, ?t)")
  have "aid \<in> set (map id_msg (messages a'))"
    using assms(1) by (intro commit_keeps_id [OF _ c]) simp
  then show ?thesis by (simp add: AgentComplete c)
next
  case (Transition f g m)
  show ?thesis
  proof (cases "truthy m")
    case True
    then obtain s where m: "m = Some s" "s \<noteq> []"
      by (cases m) (simp_all add: truthy_def)
    let ?t = "t\<lparr>completeResponse := completeResponse t @ s\<rparr>"
    obtain a' t' where c: "commit aid (a, ?t) = (a', t')" by (cases "commit aid (a, ?t)")
    have "aid \<in> set (map id_msg (messages a'))"
      using assms(1) by (intro commit_keeps_id [OF _ c]) simp
    then show ?thesis by (simp add: Transition m c)
  next
    case False
    then have "handleEvent sid aid e (a, t) = (a, t)"
      by (cases m) (simp_all add: Transition truthy_def)
    then show ?thesis using assms by simp
  qed
next
  case Complete
  show ?thesis
  proof (cases "currentAgentContent t = []")
    case True
    then show ?thesis using assms by (simp add: Complete)
  next
    case False
    let ?t = "t\<lparr>completeResponse := completeResponse t @ currentAgentContent t\<rparr>"
    obtain a' t' where c: "commit aid (a, ?t) = (a', t')" by (cases "commit aid (a, ?t)")
    have "aid \<in> set (map id_msg (messages a'))"
      using assms(1) by (intro commit_keeps_id [OF _ c]) simp
    then show ?thesis by (simp add: Complete False c)
  qed
qed (use assms in \<open>auto split: if_splits\<close>)

lemma processEvents_has_message:
  assumes "aiMessageAdded (snd st) \<longrightarrow> aid \<in> set (map id_msg (messages (fst st)))"
    and "aiMessageAdded (snd (processEvents sid aid es st))"
  shows "aid \<in> set (map id_msg (messages (fst (processEvents sid aid es st))))"
  using assms
proof (induction es arbitrary: st)
  case Nil
  then show ?case by simp
next
  case (Cons e es)
  obtain a t where st: "st = (a, t)" by (cases st)
  let ?st' = "handleEvent sid aid e (a, t)"
  have "aiMessageAdded (snd ?st') \<longrightarrow> aid \<in> set (map id_msg (messages (fst ?st')))"
    using handleEvent_has_message [of t aid a sid e] Cons.prems(1) by (simp add: st)
  then show ?case
    using Cons.IH [of ?st'] Cons.prems(2) by (simp add: st)
qed

lemma rewrite_leaves_other_ids:
  "aid \<notin> set (map id_msg ms) \<Longrightarrow>
     map (\<lambda>m. if id_msg m = aid then m\<lparr>text_msg := x\<rparr> else m) ms = ms"
  by (induction ms) auto

lemma commit_keeps_one_message:
  assumes "aid \<notin> set (map id_msg ms)"
    and "messages a = ms @ (if aiMessageAdded t then [\<lparr>id_msg = aid, text_msg = old, sender_msg = ai\<rparr>] else [])"
  shows "messages (fst (commit aid (a, t))) =
           ms @ [\<lparr>id_msg = aid, text_msg = completeResponse t, sender_msg = ai\<rparr>]"
  using assms by (simp add: commit_messages rewrite_leaves_other_ids)

lemma handleEvent_keeps_one_message:
  assumes "\<not> is_error e" and "aid \<notin> set (map id_msg ms)"
    and "messages a =
           ms @ (if aiMessageAdded t
                 then [\<lparr>id_msg = aid, text_msg = completeResponse t, sender_msg = ai\<rparr>] else [])"
    and "handleEvent sid aid e (a, t) = (a', t')"
  shows "messages a' =
           ms @ (if aiMessageAdded t'
                 then [\<lparr>id_msg = aid, text_msg = completeResponse t', sender_msg = ai\<rparr>] else [])
     \<and> aiMessageAdded t' = (aiMessageAdded t \<or> commits e t)"
proof (cases e)
  case (AgentComplete agent)
  let ?t = "t\<lparr>completeResponse := completeResponse t @ currentAgentContent t\<rparr>"
  have "messages (fst (commit aid (a, ?t))) =
          ms @ [\<lparr>id_msg = aid, text_msg = completeResponse ?t, sender_msg = ai\<rparr>]"
    using assms(2,3) by (intro commit_keeps_one_message) simp_all
  then show ?thesis
    using assms(4) commit_snd [of aid a ?t]
    by (auto simp: AgentComplete split: prod.splits)
next
  case (Transition f g m)
  show ?thesis
  proof (cases "truthy m")
    case True
    then obtain s where m: "m = Some s" "s \<noteq> []"
      by (cases m) (simp_all add: truthy_def)
    let ?t = "t\<lparr>completeResponse := completeResponse t @ s\<rparr>"
    have "messages (fst (commit aid (a, ?t))) =
          ms @ [\<lparr>id_msg = aid, text_msg = completeResponse ?t, sender_msg = ai\<rparr>]"
      using assms(2,3) by (intro commit_keeps_one_message) simp_all
    then show ?thesis
      using assms(4) commit_snd [of aid a ?t] True
      by (auto simp: Transition m)
  next
    case False
    then have "handleEvent sid aid e (a, t) = (a, t)"
      by (cases m) (simp_all add: Transition truthy_def)
    then show ?thesis using assms False by (simp add: Transition)
  qed
next
  case Complete
  show ?thesis
  proof (cases "currentAgentContent t = []")
    case True
    then show ?thesis using assms by (auto simp: Complete)
  next
    case False
    let ?t = "t\<lparr>completeResponse := completeResponse t @ currentAgentContent t\<rparr>"
    have "messages (fst (commit aid (a, ?t))) =
          ms @ [\<lparr>id_msg = aid, text_msg = completeResponse ?t, sender_msg = ai\<rparr>]"
      using assms(2,3) by (intro commit_keeps_one_message) simp_all
    then show ?thesis
      using assms(4) commit_snd [of aid a ?t] False
      by (auto simp: Complete split: prod.splits)
  qed
qed (use assms in \<open>auto split: if_splits\<close>)

lemma processEvents_keeps_one_message:
  assumes "\<forall>e \<in> set es. \<not> is_error e" and "aid \<notin> set (map id_msg ms)"
    and "messages (fst st) =
           ms @ (if aiMessageAdded (snd st)
                 then [\<lparr>id_msg = aid, text_msg = completeResponse (snd st), sender_msg = ai\<rparr>]
                 else [])"
  shows "messages (fst (processEvents sid aid es st)) =
           ms @ (if aiMessageAdded (snd (processEvents sid aid es st))
                 then [\<lparr>id_msg = aid,
                        text_msg = completeResponse (snd (processEvents sid aid es st)),
                        sender_msg = ai\<rparr>]
                 else [])
     \<and> aiMessageAdded (snd (processEvents sid aid es st)) =
         (aiMessageAdded (snd st) \<or> any_commit sid aid es st)"
  using assms
proof (induction es arbitrary: st)
  case Nil
  then show ?case by simp
next
  case (Cons e es)
  obtain a t where st: "st = (a, t)" by (cases st)
  obtain a' t' where h: "handleEvent sid aid e (a, t) = (a', t')"
    by (cases "handleEvent sid aid e (a, t)")
  have step: "messages a' =
           ms @ (if aiMessageAdded t'
                 then [\<lparr>id_msg = aid, text_msg = completeResponse t', sender_msg = ai\<rparr>] else [])
     \<and> aiMessageAdded t' = (aiMessageAdded t \<or> commits e t)"
    using Cons.prems by (intro handleEvent_keeps_one_message [OF _ _ _ h]) (simp_all add: st)
  have "messages (fst (processEvents sid aid es (a', t'))) =
           ms @ (if aiMessageAdded (snd (processEvents sid aid es (a', t')))
                 then [\<lparr>id_msg = aid,
                        text_msg = completeResponse (snd (processEvents sid aid es (a', t'))),
                        sender_msg = ai\<rparr>]
                 else [])
     \<and> aiMessageAdded (snd (processEvents sid aid es (a', t'))) =
         (aiMessageAdded (snd (a', t')) \<or> any_commit sid aid es (a', t'))"
    using Cons.prems step by (intro Cons.IH) simp_all
  then show ?case using step by (auto simp: st h)
qed

text \<open>
  On a stream without \<^verbatim>\<open>error\<close> events the turn adds no message when no event
  commits, and one message carrying \<open>completeResponse\<close> when some event does.
\<close>

lemma one_message_without_error_events:
  assumes "\<forall>e \<in> set es. \<not> is_error e" and "aid \<notin> set (map id_msg (messages a))"
  shows "messages (fst (processEvents sid aid es (a, fresh_turn))) =
           messages a @
             (if any_commit sid aid es (a, fresh_turn)
              then [\<lparr>id_msg = aid,
                     text_msg = completeResponse (snd (processEvents sid aid es (a, fresh_turn))),
                     sender_msg = ai\<rparr>]
              else [])"
proof -
  have "messages (fst (a, fresh_turn)) =
          messages a @ (if aiMessageAdded (snd (a, fresh_turn))
                 then [\<lparr>id_msg = aid, text_msg = completeResponse (snd (a, fresh_turn)),
                        sender_msg = ai\<rparr>]
                 else [])"
    by (simp add: fresh_turn_def)
  from processEvents_keeps_one_message [OF assms this, of sid]
  show ?thesis by (simp add: fresh_turn_def)
qed

subsection \<open>The buffer of the streaming agent\<close>

lemma handleEvent_buffer:
  "\<not> flushes e \<Longrightarrow>
     currentAgentContent (snd (handleEvent sid aid e (a, t))) = currentAgentContent t @ deltas [e]"
  by (cases e) (simp_all add: commit_def split: option.splits)

lemma deltas_Cons: "deltas (e # es) = deltas [e] @ deltas es"
  by (cases e) simp_all

lemma processEvents_buffer:
  "\<forall>e \<in> set es. \<not> flushes e \<Longrightarrow>
     currentAgentContent (snd (processEvents sid aid es st)) =
       currentAgentContent (snd st) @ deltas es"
proof (induction es arbitrary: st)
  case Nil
  show ?case by simp
next
  case (Cons e es)
  obtain a t where st: "st = (a, t)" by (cases st)
  have "currentAgentContent (snd (handleEvent sid aid e st)) =
          currentAgentContent (snd st) @ deltas [e]"
    using Cons.prems by (simp add: st handleEvent_buffer)
  moreover have "deltas (e # es) = deltas [e] @ deltas es" by (rule deltas_Cons)
  ultimately show ?case using Cons by simp
qed

text \<open>
  An event that does not flush never reads the buffer: run on another buffer it gives the
  same application state and the same turn, the buffer apart.
\<close>

lemma handleEvent_ignores_buffer:
  assumes "\<not> flushes e"
  shows "handleEvent sid aid e (a, t\<lparr>currentAgentContent := b\<rparr>) =
           (fst (handleEvent sid aid e (a, t)),
            (snd (handleEvent sid aid e (a, t)))\<lparr>currentAgentContent := b @ deltas [e]\<rparr>)"
  using assms by (cases e) (simp_all add: commit_def split: option.splits)

lemma processEvents_ignores_buffer:
  assumes "\<forall>e \<in> set es. \<not> flushes e"
  shows "processEvents sid aid es (a, t\<lparr>currentAgentContent := b\<rparr>) =
           (fst (processEvents sid aid es (a, t)),
            (snd (processEvents sid aid es (a, t)))\<lparr>currentAgentContent := b @ deltas es\<rparr>)"
  using assms
proof (induction es arbitrary: a t b)
  case Nil
  show ?case by simp
next
  case (Cons e es)
  obtain a' t' where h: "handleEvent sid aid e (a, t) = (a', t')"
    by (cases "handleEvent sid aid e (a, t)")
  have ne: "\<not> flushes e" and rest: "\<forall>e \<in> set es. \<not> flushes e"
    using Cons.prems by simp_all
  have "processEvents sid aid (e # es) (a, t\<lparr>currentAgentContent := b\<rparr>) =
          processEvents sid aid es (a', t'\<lparr>currentAgentContent := b @ deltas [e]\<rparr>)"
    by (simp add: handleEvent_ignores_buffer [OF ne] h)
  also have "\<dots> = (fst (processEvents sid aid es (a', t')),
            (snd (processEvents sid aid es (a', t')))
              \<lparr>currentAgentContent := (b @ deltas [e]) @ deltas es\<rparr>)"
    using rest by (rule Cons.IH)
  finally show ?case
    using deltas_Cons [of e es] by (simp add: h)
qed

subsection \<open>The handler as a function of the events\<close>

lemma handler_on_body:
  assumes "trim (inputValue a) \<noteq> []"
    and "fetch \<lparr>message = inputValue a, session_id = sessionId a\<rparr> = Body chunks e"
  shows "fst (handleSendMessage parse now1 now2 fetch a) =
     (case leave e (processEvents (sessionId a) (toString (now2 + 1))
                      (events_of_chunks parse chunks) (started now1 a, fresh_turn)) of
        Inr (a', t') \<Rightarrow> a'
      | Inl st \<Rightarrow> catchBlock (toString (now2 + 1)) st)"
  using assms
  by (simp add: handleSendMessage_def Let_def readLoop_events started_def fresh_turn_def
        del: One_nat_def)

lemma handler_on_refusal:
  assumes "trim (inputValue a) \<noteq> []"
    and "fetch \<lparr>message = inputValue a, session_id = sessionId a\<rparr> \<in>
           {FetchRejected, HttpError, NoBodyReader}"
  shows "fst (handleSendMessage parse now1 now2 fetch a) =
           catchBlock (toString (now2 + 1)) (started now1 a, fresh_turn)"
  using assms
  by (auto simp: handleSendMessage_def Let_def started_def fresh_turn_def simp del: One_nat_def)

lemma leave_typing:
  "\<not> isTyping (case leave e st of Inl st' \<Rightarrow> catchBlock aid st' | Inr (a', t') \<Rightarrow> a')"
  by (cases e; cases st) (simp_all add: catchBlock_def)

lemma catchBlock_typing: "isTyping (catchBlock aid st) = False"
  by (cases st) (simp add: catchBlock_def)

lemma catchBlock_first:
  "\<not> aiMessageAdded t \<Longrightarrow> messages (catchBlock aid (a, t)) = messages a @ [errorMsg aid]"
  by (simp add: catchBlock_def)

lemma catchBlock_later:
  "aiMessageAdded t \<Longrightarrow>
     messages (catchBlock aid (a, t)) =
       map (\<lambda>m. if id_msg m = aid then errorMsg aid else m) (messages a)"
  by (simp add: catchBlock_def)

lemma catchBlock_overwrites:
  assumes "aiMessageAdded t" and "aid \<in> set (map id_msg (messages a))"
  shows "errorMsg aid \<in> set (messages (catchBlock aid (a, t)))"
proof -
  from assms(2) obtain m where m: "m \<in> set (messages a)" "id_msg m = aid" by auto
  have "errorMsg aid \<in> (\<lambda>m. if id_msg m = aid then errorMsg aid else m) ` set (messages a)"
    using m by (intro image_eqI [where x = m]) simp_all
  then show ?thesis using assms(1) by (simp add: catchBlock_later)
qed

lemma catchBlock_only_error:
  assumes "aiMessageAdded t" and "m \<in> set (messages (catchBlock aid (a, t)))" and "id_msg m = aid"
  shows "m = errorMsg aid"
  using assms by (auto simp: catchBlock_later errorMsg_def split: if_splits)

lemma overwrite_after_events:
  assumes st_def: "st = processEvents sid aid es (a0, fresh_turn)"
  shows "isTyping (catchBlock aid st) = False
     \<and> (\<not> aiMessageAdded (snd st) \<longrightarrow>
          messages (catchBlock aid st) = messages (fst st) @ [errorMsg aid])
     \<and> (aiMessageAdded (snd st) \<longrightarrow>
          messages (catchBlock aid st) =
            map (\<lambda>m. if id_msg m = aid then errorMsg aid else m) (messages (fst st))
          \<and> errorMsg aid \<in> set (messages (catchBlock aid st))
          \<and> (\<forall>m \<in> set (messages (catchBlock aid st)). id_msg m = aid \<longrightarrow> m = errorMsg aid))"
proof -
  obtain a' t' where p: "st = (a', t')" by (cases st)
  have "aiMessageAdded (snd (a0, fresh_turn)) \<longrightarrow>
          aid \<in> set (map id_msg (messages (fst (a0, fresh_turn))))"
    by (simp add: fresh_turn_def)
  then have "aiMessageAdded (snd st) \<Longrightarrow> aid \<in> set (map id_msg (messages (fst st)))"
    unfolding st_def by (rule processEvents_has_message)
  then have inv: "aiMessageAdded t' \<Longrightarrow> aid \<in> set (map id_msg (messages a'))"
    by (simp add: p)
  show ?thesis
    unfolding p
    using catchBlock_overwrites [OF _ inv, of ] catchBlock_only_error [of t' _ aid a']
    by (simp add: catchBlock_typing catchBlock_first catchBlock_later del: set_map)
qed

lemma handleEvent_session_bound:
  "truthy sid \<Longrightarrow> sessionId (fst (handleEvent sid aid e (a, t))) = sessionId a"
  by (cases e) (simp_all add: commit_def split: option.splits)

lemma processEvents_session_bound:
  "truthy sid \<Longrightarrow> sessionId (fst (processEvents sid aid es st)) = sessionId (fst st)"
proof (induction es arbitrary: st)
  case Nil
  show ?case by simp
next
  case (Cons e es)
  obtain a t where st: "st = (a, t)" by (cases st)
  obtain a' t' where h: "handleEvent sid aid e (a, t) = (a', t')"
    by (cases "handleEvent sid aid e (a, t)")
  have "sessionId a' = sessionId a"
    using handleEvent_session_bound [OF Cons.prems, of aid e a t] by (simp add: h)
  then show ?case using Cons.IH [OF Cons.prems, of "(a', t')"] by (simp add: st h)
qed

lemma started_session: "sessionId (started now1 a) = sessionId a"
  by (simp add: started_def)

lemma leave_session:
  "sessionId (case leave e (a, t) of Inr (a', t') \<Rightarrow> a' | Inl st \<Rightarrow> catchBlock aid st) = sessionId a"
  by (cases e) (simp_all add: catchBlock_def)

section \<open>The claims\<close>

text \<open>
  Claim C1 (one ai message per turn). The claim asks for exactly one new ai message in
  every turn whose stream holds a committing event. The \<^verbatim>\<open>error\<close> case appends a
  message under the turn's id without setting \<open>aiMessageAdded\<close>, which every other
  appending case does; a commit that follows therefore appends a second message. The
  theorem runs the handler on the stream \<^verbatim>\<open>error\<close>, \<^verbatim>\<open>agent_complete\<close>,
  \<^verbatim>\<open>done\<close>: the store gains two ai messages with the same id.
  (\<open>one_message_without_error_events\<close> above is the claim on streams without
  \<^verbatim>\<open>error\<close> events.)
\<close>

theorem error_event_then_commit_gives_two_messages:
  \<open>handleSendMessage parseFrame 1000 1001
     (\<lambda>r. Body [''data: {"type":"error","message":"boom"}\<newline>data: {"type":"agent_complete","agent":"x"}\<newline>data: {"type":"done"}\<newline>'']
            EndOfStream) hi_app =
     (\<lparr>hasStarted = True, inputValue = [],
       messages =
         [\<lparr>id_msg = ''1000'', text_msg = ''hi'', sender_msg = user\<rparr>,
          \<lparr>id_msg = ''1002'', text_msg = ''boom'', sender_msg = ai\<rparr>,
          \<lparr>id_msg = ''1002'', text_msg = [], sender_msg = ai\<rparr>],
       isTyping = False, sessionId = None\<rparr>,
      [\<lparr>message = ''hi'', session_id = None\<rparr>])
   \<and> length (ai_messages (fst (handleSendMessage parseFrame 1000 1001
     (\<lambda>r. Body [''data: {"type":"error","message":"boom"}\<newline>data: {"type":"agent_complete","agent":"x"}\<newline>data: {"type":"done"}\<newline>'']
            EndOfStream) hi_app))) = length (ai_messages hi_app) + 2\<close>
  by code_simp

text \<open>
  Claim C2 (content withholding), as the code has it. A \<open>Content\<close> event changes nothing
  but the buffer, to which it appends its delta. Whatever events follow that do not flush
  the buffer (any but \<open>AgentComplete\<close> and \<open>Complete\<close>), the application state, hence the
  store, and the turn are then what these events alone would have made them without the
  \<open>Content\<close> event, except for the buffer, which holds what it held before, the delta and
  the later deltas, in this order. In particular a \<open>Transition\<close> with a message puts
  \<open>completeResponse\<close> followed by its own message into the turn's message and keeps the
  buffer as it is. The next \<open>AgentComplete\<close>, or the next \<open>Complete\<close> if the buffer is
  not empty, puts \<open>completeResponse\<close> followed by the whole buffer into the turn's message
  (appended if none was added, rewritten otherwise).
\<close>

theorem content_withheld_until_flush:
  assumes "\<forall>e \<in> set es. \<not> flushes e"
  shows "handleEvent sid aid (Content d) (a, t) =
           (a, t\<lparr>currentAgentContent := currentAgentContent t @ d\<rparr>)
     \<and> processEvents sid aid (Content d # es) (a, t) =
           (fst (processEvents sid aid es (a, t)),
            (snd (processEvents sid aid es (a, t)))
              \<lparr>currentAgentContent := currentAgentContent t @ d @ deltas es\<rparr>)
     \<and> (s \<noteq> [] \<longrightarrow>
          handleEvent sid aid (Transition from_agent to_agent (Some s)) (a, t) =
            (a\<lparr>messages :=
                 (if aiMessageAdded t
                  then map (\<lambda>m. if id_msg m = aid
                                 then m\<lparr>text_msg := completeResponse t @ s\<rparr> else m)
                         (messages a)
                  else messages a @
                         [\<lparr>id_msg = aid, text_msg = completeResponse t @ s, sender_msg = ai\<rparr>])\<rparr>,
             t\<lparr>completeResponse := completeResponse t @ s, aiMessageAdded := True\<rparr>))
     \<and> (let st1 = processEvents sid aid (Content d # es) (a, t);
             buffer = currentAgentContent t @ d @ deltas es;
             full = completeResponse (snd st1) @ buffer;
             shown = (if aiMessageAdded (snd st1)
                      then map (\<lambda>m. if id_msg m = aid then m\<lparr>text_msg := full\<rparr> else m)
                             (messages (fst st1))
                      else messages (fst st1) @
                             [\<lparr>id_msg = aid, text_msg = full, sender_msg = ai\<rparr>])
         in currentAgentContent (snd st1) = buffer
          \<and> messages (fst (handleEvent sid aid (AgentComplete x) st1)) = shown
          \<and> (buffer \<noteq> [] \<longrightarrow> messages (fst (handleEvent sid aid Complete st1)) = shown))"
proof -
  let ?t0 = "t\<lparr>currentAgentContent := currentAgentContent t @ d\<rparr>"
  obtain a1 t1 where st1: "processEvents sid aid es (a, ?t0) = (a1, t1)"
    by (cases "processEvents sid aid es (a, ?t0)")
  have ign: "processEvents sid aid es (a, ?t0) =
           (fst (processEvents sid aid es (a, t)),
            (snd (processEvents sid aid es (a, t)))
              \<lparr>currentAgentContent := (currentAgentContent t @ d) @ deltas es\<rparr>)"
    using assms by (rule processEvents_ignores_buffer)
  have c1: "handleEvent sid aid (Content d) (a, t) = (a, ?t0)" by simp
  have c2: "processEvents sid aid (Content d # es) (a, t) =
           (fst (processEvents sid aid es (a, t)),
            (snd (processEvents sid aid es (a, t)))
              \<lparr>currentAgentContent := currentAgentContent t @ d @ deltas es\<rparr>)"
    using ign by simp
  have c3: "s \<noteq> [] \<longrightarrow>
          handleEvent sid aid (Transition from_agent to_agent (Some s)) (a, t) =
            (a\<lparr>messages :=
                 (if aiMessageAdded t
                  then map (\<lambda>m. if id_msg m = aid
                                 then m\<lparr>text_msg := completeResponse t @ s\<rparr> else m)
                         (messages a)
                  else messages a @
                         [\<lparr>id_msg = aid, text_msg = completeResponse t @ s, sender_msg = ai\<rparr>])\<rparr>,
             t\<lparr>completeResponse := completeResponse t @ s, aiMessageAdded := True\<rparr>)"
    by (simp add: commit_def)
  have b: "currentAgentContent t1 = currentAgentContent t @ d @ deltas es"
    using ign by (simp add: st1)
  have c4: "(let st1 = processEvents sid aid (Content d # es) (a, t);
             buffer = currentAgentContent t @ d @ deltas es;
             full = completeResponse (snd st1) @ buffer;
             shown = (if aiMessageAdded (snd st1)
                      then map (\<lambda>m. if id_msg m = aid then m\<lparr>text_msg := full\<rparr> else m)
                             (messages (fst st1))
                      else messages (fst st1) @
                             [\<lparr>id_msg = aid, text_msg = full, sender_msg = ai\<rparr>])
         in currentAgentContent (snd st1) = buffer
          \<and> messages (fst (handleEvent sid aid (AgentComplete x) st1)) = shown
          \<and> (buffer \<noteq> [] \<longrightarrow> messages (fst (handleEvent sid aid Complete st1)) = shown))"
    by (simp add: Let_def st1 b commit_def)
  show ?thesis by (rule conjI, rule c1, rule conjI, rule c2, rule conjI, rule c3, rule c4)
qed

text \<open>Instances of C2: a status and a transition between the delta and the flush, and a
  transition met with \<^verbatim>\<open>A\<close> in the buffer.\<close>

theorem content_withheld_until_flush_witness:
  "processEvents None ''1002''
       [Content ''A'', Status None, Transition None None (Some ''M'')] (said_hi, fresh_turn) =
     (said_hi\<lparr>messages := [\<lparr>id_msg = ''1000'', text_msg = ''hi'', sender_msg = user\<rparr>,
                            \<lparr>id_msg = ''1002'', text_msg = ''M'', sender_msg = ai\<rparr>]\<rparr>,
      \<lparr>completeResponse = ''M'', currentAgentContent = ''A'', aiMessageAdded = True\<rparr>)
   \<and> handleEvent None ''1002'' (Transition None None (Some ''M''))
       (said_hi, fresh_turn\<lparr>currentAgentContent := ''A''\<rparr>) =
     (said_hi\<lparr>messages := [\<lparr>id_msg = ''1000'', text_msg = ''hi'', sender_msg = user\<rparr>,
                            \<lparr>id_msg = ''1002'', text_msg = ''M'', sender_msg = ai\<rparr>]\<rparr>,
      \<lparr>completeResponse = ''M'', currentAgentContent = ''A'', aiMessageAdded = True\<rparr>)
   \<and> messages (fst (handleEvent None ''1002'' (AgentComplete None)
       (processEvents None ''1002''
          [Content ''A'', Status None, Transition None None (Some ''M'')] (said_hi, fresh_turn)))) =
     [\<lparr>id_msg = ''1000'', text_msg = ''hi'', sender_msg = user\<rparr>,
      \<lparr>id_msg = ''1002'', text_msg = ''MA'', sender_msg = ai\<rparr>]
   \<and> messages (fst (handleEvent None ''1002'' Complete
       (processEvents None ''1002''
          [Content ''A'', Status None, Transition None None (Some ''M'')] (said_hi, fresh_turn)))) =
     [\<lparr>id_msg = ''1000'', text_msg = ''hi'', sender_msg = user\<rparr>,
      \<lparr>id_msg = ''1002'', text_msg = ''MA'', sender_msg = ai\<rparr>]"
proof -
  have h: "\<forall>e \<in> set [Status None, Transition None None (Some ''M'')]. \<not> flushes e"
    by simp
  have k: "\<forall>e \<in> set ([] :: event list). \<not> flushes e"
    by simp
  show ?thesis
    using content_withheld_until_flush [OF h, where sid = None and aid = "''1002''"
        and d = "''A''" and a = said_hi and t = fresh_turn and x = None and s = "''M''"]
      content_withheld_until_flush [OF k, where sid = None and aid = "''1002''"
        and d = "[]" and a = said_hi and t = "fresh_turn\<lparr>currentAgentContent := ''A''\<rparr>"
        and s = "''M''" and from_agent = None and to_agent = None]
    by (simp add: Let_def said_hi_def fresh_turn_def commit_def)
qed

text \<open>
  Against C2 as stated: a \<open>Transition\<close> with a message is a committing event, yet after
  \<open>Content ''A''\<close> it commits its own message only; the delta stays in the buffer.
\<close>

theorem transition_commits_without_the_buffer:
  "processEvents None ''1002'' [Content ''A'', Transition None None (Some ''Handing off'')]
     (said_hi, fresh_turn) =
   (said_hi\<lparr>messages := [\<lparr>id_msg = ''1000'', text_msg = ''hi'', sender_msg = user\<rparr>,
                          \<lparr>id_msg = ''1002'', text_msg = ''Handing off'', sender_msg = ai\<rparr>]\<rparr>,
    \<lparr>completeResponse = ''Handing off'', currentAgentContent = ''A'', aiMessageAdded = True\<rparr>)"
  by code_simp

text \<open>
  Claim C3 (multi-agent flush and commit). From a fresh turn the events
  \<open>Content ''A''\<close>, \<open>AgentComplete\<close>, \<open>Content ''B''\<close>, \<open>AgentComplete\<close>, \<open>Done\<close> add
  exactly one message, an ai message with the turn's id and the text \<open>''AB''\<close>, at the end
  of the store (and leave every earlier message as it was when none of them has the turn's
  id). Each \<open>AgentComplete\<close> appends the buffer to \<open>completeResponse\<close>, commits and
  empties the buffer.
\<close>

theorem multi_agent_flush_and_commit:
  "processEvents sid aid
      [Content ''A'', AgentComplete x, Content ''B'', AgentComplete y, Done] (a, fresh_turn) =
     (a\<lparr>messages :=
          map (\<lambda>m. if id_msg m = aid then m\<lparr>text_msg := ''AB''\<rparr> else m) (messages a) @
          [\<lparr>id_msg = aid, text_msg = ''AB'', sender_msg = ai\<rparr>],
        isTyping := False\<rparr>,
      \<lparr>completeResponse = ''AB'', currentAgentContent = [], aiMessageAdded = True\<rparr>)
   \<and> length (ai_messages (fst (processEvents sid aid
      [Content ''A'', AgentComplete x, Content ''B'', AgentComplete y, Done] (a, fresh_turn)))) =
      length (ai_messages a) + 1
   \<and> ((\<forall>m \<in> set (messages a). id_msg m \<noteq> aid) \<longrightarrow>
        messages (fst (processEvents sid aid
          [Content ''A'', AgentComplete x, Content ''B'', AgentComplete y, Done] (a, fresh_turn))) =
        messages a @ [\<lparr>id_msg = aid, text_msg = ''AB'', sender_msg = ai\<rparr>])
   \<and> handleEvent sid aid (AgentComplete x) (a, t) =
        (fst (commit aid (a, t\<lparr>completeResponse := completeResponse t @ currentAgentContent t\<rparr>)),
         \<lparr>completeResponse = completeResponse t @ currentAgentContent t,
          currentAgentContent = [], aiMessageAdded = True\<rparr>)"
proof -
  let ?r = "processEvents sid aid
      [Content ''A'', AgentComplete x, Content ''B'', AgentComplete y, Done] (a, fresh_turn)"
  have r: "?r = (a\<lparr>messages :=
          map (\<lambda>m. if id_msg m = aid then m\<lparr>text_msg := ''AB''\<rparr> else m) (messages a) @
          [\<lparr>id_msg = aid, text_msg = ''AB'', sender_msg = ai\<rparr>],
        isTyping := False\<rparr>,
      \<lparr>completeResponse = ''AB'', currentAgentContent = [], aiMessageAdded = True\<rparr>)"
    by (simp add: fresh_turn_def commit_def)
  have n: "length (ai_messages (fst ?r)) = length (ai_messages a) + 1"
    unfolding r by (simp add: ai_messages_def filter_map o_def if_distrib cong: if_cong)
  have m: "(\<forall>m \<in> set (messages a). id_msg m \<noteq> aid) \<longrightarrow>
        messages (fst ?r) = messages a @ [\<lparr>id_msg = aid, text_msg = ''AB'', sender_msg = ai\<rparr>]"
    unfolding r by (simp add: map_idI)
  have s: "handleEvent sid aid (AgentComplete x) (a, t) =
        (fst (commit aid (a, t\<lparr>completeResponse := completeResponse t @ currentAgentContent t\<rparr>)),
         \<lparr>completeResponse = completeResponse t @ currentAgentContent t,
          currentAgentContent = [], aiMessageAdded = True\<rparr>)"
    by (simp add: commit_def)
  from r n m s show ?thesis by blast
qed

text \<open>The scenario of C3 after \<^verbatim>\<open>hi\<close> was submitted.\<close>

theorem multi_agent_flush_and_commit_witness:
  "messages (fst (processEvents None ''1002''
       [Content ''A'', AgentComplete None, Content ''B'', AgentComplete None, Done]
       (said_hi, fresh_turn))) =
     [\<lparr>id_msg = ''1000'', text_msg = ''hi'', sender_msg = user\<rparr>,
      \<lparr>id_msg = ''1002'', text_msg = ''AB'', sender_msg = ai\<rparr>]"
  using multi_agent_flush_and_commit [where sid = None and aid = "''1002''" and x = None
      and y = None and a = said_hi]
  by (simp add: said_hi_def)

text \<open>
  Claim C4 (malformed frames). A line with the data prefix whose payload gives no event
  (it does not parse, or its type is not one of the eight) leaves the state as it is;
  the lines before and after it are processed as if it were not there, in a list of
  lines, inside a chunk (at its start or after a line feed), and in a whole run of the
  handler. No value of the model stands for an exception here: the line is a step like
  any other.
\<close>

theorem malformed_frame_is_skipped:
  assumes "take 6 line = ''data: ''" and "parse (drop 6 line) = None"
    and "CHR 0x0A \<notin> set line"
  shows "handleLine parse sid aid line st = st
     \<and> processLines parse sid aid (before @ line # after) st =
         processLines parse sid aid (before @ after) st
     \<and> readLoop parse sid aid (cs1 @ (line @ CHR 0x0A # c2) # cs2) e st =
         readLoop parse sid aid (cs1 @ c2 # cs2) e st
     \<and> readLoop parse sid aid (cs1 @ (c1 @ CHR 0x0A # line @ CHR 0x0A # c2) # cs2) e st =
         readLoop parse sid aid (cs1 @ (c1 @ CHR 0x0A # c2) # cs2) e st
     \<and> handleSendMessage parse now1 now2
           (\<lambda>r. Body (cs1 @ (c1 @ CHR 0x0A # line @ CHR 0x0A # c2) # cs2) e) a =
         handleSendMessage parse now1 now2 (\<lambda>r. Body (cs1 @ (c1 @ CHR 0x0A # c2) # cs2) e) a"
proof -
  have none: "event_of_line parse line = None"
    using assms(1,2) by (rule event_of_line_bad)
  have l: "handleLine parse sid aid line st = st"
    by (simp add: handleLine_event none)
  have p: "processLines parse sid aid (before @ line # after) st =
         processLines parse sid aid (before @ after) st"
    by (simp add: processLines_events events_of_lines_append events_of_lines_skip none)
  have r1: "readLoop parse sid aid (cs1 @ (line @ CHR 0x0A # c2) # cs2) e st =
         readLoop parse sid aid (cs1 @ c2 # cs2) e st" for st sid aid
    by (simp add: readLoop_events events_of_chunks_append events_of_chunks_Cons
          bad_line_in_chunk [OF none assms(3)])
  have r2: "readLoop parse sid aid (cs1 @ (c1 @ CHR 0x0A # line @ CHR 0x0A # c2) # cs2) e st =
         readLoop parse sid aid (cs1 @ (c1 @ CHR 0x0A # c2) # cs2) e st" for st sid aid
    by (simp add: readLoop_events events_of_chunks_append events_of_chunks_Cons
          bad_line_in_chunk [OF none assms(3)])
  have h: "handleSendMessage parse now1 now2
           (\<lambda>r. Body (cs1 @ (c1 @ CHR 0x0A # line @ CHR 0x0A # c2) # cs2) e) a =
         handleSendMessage parse now1 now2 (\<lambda>r. Body (cs1 @ (c1 @ CHR 0x0A # c2) # cs2) e) a"
    by (simp add: handleSendMessage_def Let_def r2)
  from l p r1 r2 h show ?thesis by blast
qed

text \<open>Instances of C4, read by \<open>parseFrame\<close>: a truncated frame, and a frame of an
  unknown type, between a content frame and an \<^verbatim>\<open>agent_complete\<close> frame.\<close>

theorem malformed_frame_is_skipped_witness:
  \<open>processLines parseFrame None ''1002''
      ([''data: {"type":"content","delta":"A"}''] @ ''data: {"type":"con'' #
       [''data: {"type":"agent_complete","agent":"x"}'']) (said_hi, fresh_turn) =
    processLines parseFrame None ''1002''
      ([''data: {"type":"content","delta":"A"}''] @
       [''data: {"type":"agent_complete","agent":"x"}'']) (said_hi, fresh_turn)
   \<and> processLines parseFrame None ''1002''
      ([''data: {"type":"content","delta":"A"}''] @ ''data: {"type":"bogus","delta":"Z"}'' #
       [''data: {"type":"agent_complete","agent":"x"}'']) (said_hi, fresh_turn) =
    processLines parseFrame None ''1002''
      ([''data: {"type":"content","delta":"A"}''] @
       [''data: {"type":"agent_complete","agent":"x"}'']) (said_hi, fresh_turn)
   \<and> messages (fst (processLines parseFrame None ''1002''
      ([''data: {"type":"content","delta":"A"}''] @
       [''data: {"type":"agent_complete","agent":"x"}'']) (said_hi, fresh_turn))) =
     [\<lparr>id_msg = ''1000'', text_msg = ''hi'', sender_msg = user\<rparr>,
      \<lparr>id_msg = ''1002'', text_msg = ''A'', sender_msg = ai\<rparr>]\<close>
proof -
  have h1: \<open>take 6 ''data: {"type":"con'' = ''data: ''\<close> by simp
  have h2: \<open>parseFrame (drop 6 ''data: {"type":"con'') = None\<close> by code_simp
  have h3: \<open>CHR 0x0A \<notin> set ''data: {"type":"con''\<close> by simp
  have k1: \<open>take 6 ''data: {"type":"bogus","delta":"Z"}'' = ''data: ''\<close> by simp
  have k2: \<open>parseFrame (drop 6 ''data: {"type":"bogus","delta":"Z"}'') = None\<close> by code_simp
  have k3: \<open>CHR 0x0A \<notin> set ''data: {"type":"bogus","delta":"Z"}''\<close> by simp
  have e: \<open>messages (fst (processLines parseFrame None ''1002''
      ([''data: {"type":"content","delta":"A"}''] @
       [''data: {"type":"agent_complete","agent":"x"}'']) (said_hi, fresh_turn))) =
     [\<lparr>id_msg = ''1000'', text_msg = ''hi'', sender_msg = user\<rparr>,
      \<lparr>id_msg = ''1002'', text_msg = ''A'', sender_msg = ai\<rparr>]\<close>
    by code_simp
  note t = malformed_frame_is_skipped [where parse = parseFrame
      and line = \<open>''data: {"type":"con''\<close>, OF h1 h2 h3]
  note u = malformed_frame_is_skipped [where parse = parseFrame
      and line = \<open>''data: {"type":"bogus","delta":"Z"}''\<close>, OF k1 k2 k3]
  show ?thesis
    by (rule conjI, rule t [THEN conjunct2, THEN conjunct1],
        rule conjI, rule u [THEN conjunct2, THEN conjunct1], rule e)
qed

text \<open>
  Claim C5 (line buffering), as the code has it. The loop keeps nothing between chunks:
  reading a sequence of chunks is processing, in order, the pieces that
  \<^verbatim>\<open>split('\n')\<close> cuts out of each chunk on its own, the piece after the last line
  feed included. When every non-empty chunk ends in a line feed, so that no line is cut
  by a chunk boundary, the result is that of reading the whole stream as one chunk.
\<close>

theorem chunks_are_split_one_by_one:
  "readLoop parse sid aid chunks e st =
     leave e (processLines parse sid aid (concat (map split_lines chunks)) st)
   \<and> ((\<forall>c \<in> set chunks. c \<noteq> [] \<longrightarrow> last c = CHR 0x0A) \<longrightarrow>
        readLoop parse sid aid chunks e st = readLoop parse sid aid [concat chunks] e st)"
proof -
  have "events_of_chunks parse chunks = events_of_lines parse (concat (map split_lines chunks))"
    by (induction chunks)
       (simp_all add: events_of_chunks_def events_of_lines_append events_of_lines_Nil)
  then have a: "readLoop parse sid aid chunks e st =
     leave e (processLines parse sid aid (concat (map split_lines chunks)) st)"
    by (simp add: readLoop_events processLines_events)
  have b: "(\<forall>c \<in> set chunks. c \<noteq> [] \<longrightarrow> last c = CHR 0x0A) \<longrightarrow>
        readLoop parse sid aid chunks e st = readLoop parse sid aid [concat chunks] e st"
    by (simp add: readLoop_events events_of_whole_lines events_of_chunks_Cons
          events_of_chunks_def[of parse "[]"])
  from a b show ?thesis by blast
qed

text \<open>An instance of C5: two chunks of one line each.\<close>

theorem chunks_are_split_one_by_one_witness:
  \<open>readLoop parseFrame None ''1002''
      [''data: {"type":"content","delta":"A"}\<newline>'', ''data: {"type":"agent_complete"}\<newline>'']
      EndOfStream (said_hi, fresh_turn) =
    readLoop parseFrame None ''1002''
      [concat [''data: {"type":"content","delta":"A"}\<newline>'', ''data: {"type":"agent_complete"}\<newline>'']]
      EndOfStream (said_hi, fresh_turn)
   \<and> readLoop parseFrame None ''1002''
      [concat [''data: {"type":"content","delta":"A"}\<newline>'', ''data: {"type":"agent_complete"}\<newline>'']]
      EndOfStream (said_hi, fresh_turn) =
    Inr (said_hi\<lparr>messages := [\<lparr>id_msg = ''1000'', text_msg = ''hi'', sender_msg = user\<rparr>,
                               \<lparr>id_msg = ''1002'', text_msg = ''A'', sender_msg = ai\<rparr>],
                  isTyping := False\<rparr>,
         \<lparr>completeResponse = ''A'', currentAgentContent = [], aiMessageAdded = True\<rparr>)\<close>
proof -
  have h: \<open>\<forall>c \<in> set [''data: {"type":"content","delta":"A"}\<newline>'', ''data: {"type":"agent_complete"}\<newline>''].
             c \<noteq> [] \<longrightarrow> last c = CHR 0x0A\<close>
    by simp
  have e: \<open>readLoop parseFrame None ''1002''
      [concat [''data: {"type":"content","delta":"A"}\<newline>'', ''data: {"type":"agent_complete"}\<newline>'']]
      EndOfStream (said_hi, fresh_turn) =
    Inr (said_hi\<lparr>messages := [\<lparr>id_msg = ''1000'', text_msg = ''hi'', sender_msg = user\<rparr>,
                               \<lparr>id_msg = ''1002'', text_msg = ''A'', sender_msg = ai\<rparr>],
                  isTyping := False\<rparr>,
         \<lparr>completeResponse = ''A'', currentAgentContent = [], aiMessageAdded = True\<rparr>)\<close>
    by code_simp
  note t = chunks_are_split_one_by_one [THEN conjunct2, THEN mp, OF h]
  show ?thesis by (rule conjI, rule t, rule e)
qed

text \<open>
  Against C5 as stated: a \<^verbatim>\<open>transition\<close> frame delivered in two chunks is not put
  together again. Its first piece does not parse and its second piece lacks the prefix,
  so the turn shows no ai message, whereas the same frame in one chunk shows \<^verbatim>\<open>Hi\<close>.
\<close>

theorem split_frame_is_lost:
  \<open>fst (handleSendMessage parseFrame 1000 1001
      (\<lambda>r. Body [''data: {"type":"transition","mess'', ''age":"Hi"}\<newline>''] EndOfStream) hi_app) =
     \<lparr>hasStarted = True, inputValue = [],
      messages = [\<lparr>id_msg = ''1000'', text_msg = ''hi'', sender_msg = user\<rparr>],
      isTyping = False, sessionId = None\<rparr>
   \<and> fst (handleSendMessage parseFrame 1000 1001
      (\<lambda>r. Body [''data: {"type":"transition","message":"Hi"}\<newline>''] EndOfStream) hi_app) =
     \<lparr>hasStarted = True, inputValue = [],
      messages = [\<lparr>id_msg = ''1000'', text_msg = ''hi'', sender_msg = user\<rparr>,
                  \<lparr>id_msg = ''1002'', text_msg = ''Hi'', sender_msg = ai\<rparr>],
      isTyping = False, sessionId = None\<rparr>\<close>
  by code_simp

text \<open>
  Claim C6 (typing cleared on every exit path). Once a turn has started (the input was
  not blank), \<open>isTyping\<close> is false when the handler returns, whatever the transport did
  and whatever events arrived; it is also false right after a \<open>Done\<close>, a \<open>Complete\<close> or
  an \<open>Error\<close> event and after the \<^verbatim>\<open>catch\<close> block.
\<close>

theorem typing_cleared_on_every_exit:
  "(trim (inputValue a) \<noteq> [] \<longrightarrow>
      isTyping (fst (handleSendMessage parse now1 now2 fetch a)) = False)
   \<and> isTyping (fst (handleEvent sid aid Done st)) = False
   \<and> isTyping (fst (handleEvent sid aid Complete st)) = False
   \<and> isTyping (fst (handleEvent sid aid (Error m) st)) = False
   \<and> isTyping (catchBlock aid st) = False"
proof -
  have h: "trim (inputValue a) \<noteq> [] \<longrightarrow>
      isTyping (fst (handleSendMessage parse now1 now2 fetch a)) = False"
  proof
    assume ne: "trim (inputValue a) \<noteq> []"
    let ?req = "\<lparr>message = inputValue a, session_id = sessionId a\<rparr>"
    show "isTyping (fst (handleSendMessage parse now1 now2 fetch a)) = False"
    proof (cases "fetch ?req")
      case (Body chunks e)
      then show ?thesis using ne
        by (simp add: handleSendMessage_def Let_def readLoop_events leave_typing)
    qed (use ne in \<open>simp_all add: handleSendMessage_def Let_def catchBlock_def\<close>)
  qed
  obtain a0 t0 where st: "st = (a0, t0)" by (cases st)
  have d: "isTyping (fst (handleEvent sid aid Done st)) = False" by (simp add: st)
  have c: "isTyping (fst (handleEvent sid aid Complete st)) = False"
    by (simp add: st split: prod.splits)
  have e: "isTyping (fst (handleEvent sid aid (Error m) st)) = False" by (simp add: st)
  have k: "isTyping (catchBlock aid st) = False" by (simp add: st catchBlock_def)
  from h d c e k show ?thesis by blast
qed

text \<open>An instance of C6: a \<^verbatim>\<open>status\<close> frame after \<^verbatim>\<open>done\<close> sets the flag
  again, and the end of the stream clears it.\<close>

theorem typing_cleared_on_every_exit_witness:
  \<open>trim (inputValue hi_app) \<noteq> []
   \<and> isTyping (fst (handleSendMessage parseFrame 1000 1001
        (\<lambda>r. Body [''data: {"type":"done"}\<newline>data: {"type":"status","message":"late"}\<newline>'']
               EndOfStream) hi_app)) = False\<close>
proof -
  have h: "trim (inputValue hi_app) \<noteq> []" by code_simp
  note t = typing_cleared_on_every_exit [THEN conjunct1, THEN mp, OF h]
  show ?thesis by (rule conjI, rule h, rule t)
qed

text \<open>
  Claim C7 (error event). If the turn has added no message, an \<open>Error\<close> event appends one ai
  message with the turn's id whose text is the event's message, or the fallback text
  when the message is absent or empty; if the turn has added one, the store is left
  alone. In both cases the messages that were in the store are still there unchanged,
  \<open>isTyping\<close> becomes false and the variables of the turn keep their values.
\<close>

theorem error_event_semantics:
  "(\<not> aiMessageAdded t \<longrightarrow>
      fst (handleEvent sid aid (Error m) (a, t)) =
        a\<lparr>messages := messages a @
             [\<lparr>id_msg = aid, text_msg = or_default m fallback_text, sender_msg = ai\<rparr>],
          isTyping := False\<rparr>)
   \<and> (aiMessageAdded t \<longrightarrow> fst (handleEvent sid aid (Error m) (a, t)) = a\<lparr>isTyping := False\<rparr>)
   \<and> take (length (messages a)) (messages (fst (handleEvent sid aid (Error m) (a, t)))) = messages a
   \<and> isTyping (fst (handleEvent sid aid (Error m) (a, t))) = False
   \<and> snd (handleEvent sid aid (Error m) (a, t)) = t
   \<and> (s \<noteq> [] \<longrightarrow> or_default (Some s) fallback_text = s)
   \<and> or_default None fallback_text = fallback_text
   \<and> or_default (Some []) fallback_text = fallback_text"
  by (simp add: or_default_def)

text \<open>Two instances of C7: before and after a message was added.\<close>

theorem error_event_semantics_witness:
  "\<not> aiMessageAdded fresh_turn
   \<and> fst (handleEvent None ''1002'' (Error (Some ''boom'')) (said_hi, fresh_turn)) =
       said_hi\<lparr>messages := [\<lparr>id_msg = ''1000'', text_msg = ''hi'', sender_msg = user\<rparr>,
                             \<lparr>id_msg = ''1002'', text_msg = ''boom'', sender_msg = ai\<rparr>],
                isTyping := False\<rparr>
   \<and> fst (handleEvent None ''1002'' (Error None)
         (said_hi, fresh_turn\<lparr>aiMessageAdded := True\<rparr>)) = said_hi\<lparr>isTyping := False\<rparr>"
proof -
  have h: "\<not> aiMessageAdded fresh_turn" by (simp add: fresh_turn_def)
  have k: "aiMessageAdded (fresh_turn\<lparr>aiMessageAdded := True\<rparr>)" by simp
  have b: "''boom'' \<noteq> []" by simp
  note t1 = error_event_semantics [where t = fresh_turn and m = "Some ''boom''" and s = "''boom''"
      and sid = None and aid = "''1002''" and a = said_hi]
  note t2 = error_event_semantics [where t = "fresh_turn\<lparr>aiMessageAdded := True\<rparr>" and m = None
      and sid = None and aid = "''1002''" and a = said_hi, THEN conjunct2, THEN conjunct1, THEN mp, OF k]
  show ?thesis using h t1 t2 by (simp add: said_hi_def)
qed

text \<open>
  Claim C8 (transport failure). In a started turn, when \<^verbatim>\<open>fetch\<close> rejects, the
  status is not a success or there is no body reader, the handler appends one ai message
  with the connection error text after the user's message. When a read fails after some
  chunks, the \<^verbatim>\<open>catch\<close> block works on the state the events of these chunks
  produced: it appends the error message if no message was committed; otherwise it
  replaces every message that has the turn's id by the error message, and such a message
  exists. \<open>isTyping\<close> is false afterwards.
\<close>

theorem transport_failure_aborts_the_turn:
  assumes "trim (inputValue a) \<noteq> []"
  shows "(fetch \<lparr>message = inputValue a, session_id = sessionId a\<rparr> \<in>
            {FetchRejected, HttpError, NoBodyReader} \<longrightarrow>
          fst (handleSendMessage parse now1 now2 fetch a) =
            (started now1 a)\<lparr>messages := messages (started now1 a) @
               [errorMsg (toString (now2 + 1))], isTyping := False\<rparr>)
     \<and> (fetch \<lparr>message = inputValue a, session_id = sessionId a\<rparr> = Body chunks ReadFailure \<longrightarrow>
          (let aid = toString (now2 + 1);
               st = processEvents (sessionId a) aid (events_of_chunks parse chunks)
                      (started now1 a, fresh_turn);
               r = fst (handleSendMessage parse now1 now2 fetch a)
           in r = catchBlock aid st
            \<and> isTyping r = False
            \<and> (\<not> aiMessageAdded (snd st) \<longrightarrow> messages r = messages (fst st) @ [errorMsg aid])
            \<and> (aiMessageAdded (snd st) \<longrightarrow>
                 messages r =
                   map (\<lambda>m. if id_msg m = aid then errorMsg aid else m) (messages (fst st))
                 \<and> errorMsg aid \<in> set (messages r)
                 \<and> (\<forall>m \<in> set (messages r). id_msg m = aid \<longrightarrow> m = errorMsg aid))))"
proof -
  let ?req = "\<lparr>message = inputValue a, session_id = sessionId a\<rparr>"
  define aid where "aid = toString (now2 + 1)"
  define st where "st = processEvents (sessionId a) aid (events_of_chunks parse chunks)
               (started now1 a, fresh_turn)"
  let ?r = "fst (handleSendMessage parse now1 now2 fetch a)"
  have refusal: "fetch ?req \<in> {FetchRejected, HttpError, NoBodyReader} \<longrightarrow>
          ?r = (started now1 a)\<lparr>messages := messages (started now1 a) @ [errorMsg aid],
               isTyping := False\<rparr>"
  proof
    assume "fetch ?req \<in> {FetchRejected, HttpError, NoBodyReader}"
    with assms have "?r = catchBlock aid (started now1 a, fresh_turn)"
      unfolding aid_def by (rule handler_on_refusal)
    then show "?r = (started now1 a)\<lparr>messages := messages (started now1 a) @ [errorMsg aid],
               isTyping := False\<rparr>"
      by (simp add: catchBlock_def fresh_turn_def)
  qed
  have ov: "isTyping (catchBlock aid st) = False
     \<and> (\<not> aiMessageAdded (snd st) \<longrightarrow>
          messages (catchBlock aid st) = messages (fst st) @ [errorMsg aid])
     \<and> (aiMessageAdded (snd st) \<longrightarrow>
          messages (catchBlock aid st) =
            map (\<lambda>m. if id_msg m = aid then errorMsg aid else m) (messages (fst st))
          \<and> errorMsg aid \<in> set (messages (catchBlock aid st))
          \<and> (\<forall>m \<in> set (messages (catchBlock aid st)). id_msg m = aid \<longrightarrow> m = errorMsg aid))"
    using st_def by (rule overwrite_after_events)
  have failure: "fetch ?req = Body chunks ReadFailure \<longrightarrow>
       ?r = catchBlock aid st
     \<and> isTyping ?r = False
     \<and> (\<not> aiMessageAdded (snd st) \<longrightarrow> messages ?r = messages (fst st) @ [errorMsg aid])
     \<and> (aiMessageAdded (snd st) \<longrightarrow>
          messages ?r = map (\<lambda>m. if id_msg m = aid then errorMsg aid else m) (messages (fst st))
          \<and> errorMsg aid \<in> set (messages ?r)
          \<and> (\<forall>m \<in> set (messages ?r). id_msg m = aid \<longrightarrow> m = errorMsg aid))"
  proof
    assume b: "fetch ?req = Body chunks ReadFailure"
    have "?r = (case leave ReadFailure st of Inr (a', t') \<Rightarrow> a' | Inl st' \<Rightarrow> catchBlock aid st')"
      unfolding aid_def st_def using assms b by (rule handler_on_body)
    then have r: "?r = catchBlock aid st" by simp
    show "?r = catchBlock aid st
     \<and> isTyping ?r = False
     \<and> (\<not> aiMessageAdded (snd st) \<longrightarrow> messages ?r = messages (fst st) @ [errorMsg aid])
     \<and> (aiMessageAdded (snd st) \<longrightarrow>
          messages ?r = map (\<lambda>m. if id_msg m = aid then errorMsg aid else m) (messages (fst st))
          \<and> errorMsg aid \<in> set (messages ?r)
          \<and> (\<forall>m \<in> set (messages ?r). id_msg m = aid \<longrightarrow> m = errorMsg aid))"
      unfolding r by (rule conjI, rule refl, rule ov)
  qed
  show ?thesis
    unfolding Let_def aid_def [symmetric] st_def [symmetric]
    by (rule conjI, rule refusal, rule failure)
qed

text \<open>Two instances of C8: a refused request, and a read failure after a commit.\<close>

theorem transport_failure_aborts_the_turn_witness:
  \<open>trim (inputValue hi_app) \<noteq> []
   \<and> fst (handleSendMessage parseFrame 1000 1001 (\<lambda>r. HttpError) hi_app) =
       \<lparr>hasStarted = True, inputValue = [],
        messages = [\<lparr>id_msg = ''1000'', text_msg = ''hi'', sender_msg = user\<rparr>,
                    \<lparr>id_msg = ''1002'', text_msg = connection_error_text, sender_msg = ai\<rparr>],
        isTyping = False, sessionId = None\<rparr>
   \<and> messages (fst (handleSendMessage parseFrame 1000 1001
        (\<lambda>r. Body [''data: {"type":"content","delta":"A"}\<newline>data: {"type":"agent_complete"}\<newline>'']
               ReadFailure) hi_app)) =
       [\<lparr>id_msg = ''1000'', text_msg = ''hi'', sender_msg = user\<rparr>,
        \<lparr>id_msg = ''1002'', text_msg = connection_error_text, sender_msg = ai\<rparr>]\<close>
proof -
  have h: "trim (inputValue hi_app) \<noteq> []" by code_simp
  let ?body = \<open>Body [''data: {"type":"content","delta":"A"}\<newline>data: {"type":"agent_complete"}\<newline>''] ReadFailure\<close>
  have r1: "(\<lambda>r. HttpError) \<lparr>message = inputValue hi_app, session_id = sessionId hi_app\<rparr>
              \<in> {FetchRejected, HttpError, NoBodyReader}"
    by simp
  have r2: "(\<lambda>r. ?body) \<lparr>message = inputValue hi_app, session_id = sessionId hi_app\<rparr> = ?body"
    by simp
  have e1: "(started 1000 hi_app)\<lparr>messages := messages (started 1000 hi_app) @
               [errorMsg (toString (1001 + 1))], isTyping := False\<rparr> =
       \<lparr>hasStarted = True, inputValue = [],
        messages = [\<lparr>id_msg = ''1000'', text_msg = ''hi'', sender_msg = user\<rparr>,
                    \<lparr>id_msg = ''1002'', text_msg = connection_error_text, sender_msg = ai\<rparr>],
        isTyping = False, sessionId = None\<rparr>"
    by code_simp
  have e2: \<open>messages (catchBlock (toString (1001 + 1))
        (processEvents (sessionId hi_app) (toString (1001 + 1))
           (events_of_chunks parseFrame
              [''data: {"type":"content","delta":"A"}\<newline>data: {"type":"agent_complete"}\<newline>''])
           (started 1000 hi_app, fresh_turn))) =
       [\<lparr>id_msg = ''1000'', text_msg = ''hi'', sender_msg = user\<rparr>,
        \<lparr>id_msg = ''1002'', text_msg = connection_error_text, sender_msg = ai\<rparr>]\<close>
    by code_simp
  note t1 = transport_failure_aborts_the_turn [OF h, THEN conjunct1, THEN mp, OF r1]
  note t2 = transport_failure_aborts_the_turn [OF h, THEN conjunct2, THEN mp, OF r2,
      unfolded Let_def, THEN conjunct1]
  show ?thesis
    by (rule conjI, rule h, rule conjI, simp only: t1 e1, simp only: t2 e2)
qed

text \<open>
  Claim C9 (session binding), as the code has it. The guard tests the identifier the
  handler captured when it was called. In a turn that started with an identifier bound,
  no \<open>Connected\<close> event changes the session, and the handler returns with the same
  identifier. Handling the same \<open>Connected\<close> event twice is handling it once, and an event
  that carries the identifier already held changes nothing. In a turn that started without
  an identifier, every \<open>Connected\<close> event that carries a non-empty identifier sets it; an
  event without one changes nothing.
\<close>

theorem session_is_bound_by_the_first_turn:
  "(truthy sid \<longrightarrow> handleEvent sid aid (Connected x) (a, t) = (a, t))
   \<and> (truthy (sessionId a) \<longrightarrow>
        sessionId (fst (handleSendMessage parse now1 now2 fetch a)) = sessionId a)
   \<and> handleEvent sid aid (Connected x) (handleEvent sid aid (Connected x) (a, t)) =
        handleEvent sid aid (Connected x) (a, t)
   \<and> (sessionId a = x \<longrightarrow> handleEvent sid aid (Connected x) (a, t) = (a, t))
   \<and> (\<not> truthy sid \<and> truthy x \<longrightarrow>
        handleEvent sid aid (Connected x) (a, t) = (a\<lparr>sessionId := x\<rparr>, t))
   \<and> (\<not> truthy x \<longrightarrow> handleEvent sid aid (Connected x) (a, t) = (a, t))"
proof -
  have h: "truthy (sessionId a) \<longrightarrow>
        sessionId (fst (handleSendMessage parse now1 now2 fetch a)) = sessionId a"
  proof
    assume b: "truthy (sessionId a)"
    let ?req = "\<lparr>message = inputValue a, session_id = sessionId a\<rparr>"
    show "sessionId (fst (handleSendMessage parse now1 now2 fetch a)) = sessionId a"
    proof (cases "trim (inputValue a) = []")
      case True
      then show ?thesis by (simp add: handleSendMessage_def)
    next
      case False
      show ?thesis
      proof (cases "fetch ?req")
        case (Body chunks e)
        obtain a' t' where st: "processEvents (sessionId a) (toString (now2 + 1))
            (events_of_chunks parse chunks) (started now1 a, fresh_turn) = (a', t')"
          by (cases "processEvents (sessionId a) (toString (now2 + 1))
            (events_of_chunks parse chunks) (started now1 a, fresh_turn)")
        have "sessionId a' = sessionId (started now1 a)"
          using processEvents_session_bound [OF b, of "toString (now2 + 1)"
              "events_of_chunks parse chunks" "(started now1 a, fresh_turn)"]
          by (simp add: st del: One_nat_def)
        then show ?thesis
          using False Body
            handler_on_body [where a = a and fetch = fetch and chunks = chunks and e = e
              and parse = parse and ?now1.0 = now1 and ?now2.0 = now2]
          by (simp add: st leave_session started_session del: One_nat_def)
      qed (use False in \<open>simp_all add: handleSendMessage_def Let_def catchBlock_def\<close>)
    qed
  qed
  show ?thesis using h by simp
qed

text \<open>Instances of C9: a bound session meets another identifier; an unbound one is bound,
  and bound again to the same identifier.\<close>

theorem session_is_bound_by_the_first_turn_witness:
  \<open>truthy (sessionId bound_app)
   \<and> sessionId (fst (handleSendMessage parseFrame 1000 1001
        (\<lambda>r. Body [''data: {"type":"connected","session_id":"s2"}\<newline>''] EndOfStream) bound_app)) =
       Some ''s1''
   \<and> handleEvent None ''1002'' (Connected (Some ''s1'')) (said_hi, fresh_turn) =
       (said_hi\<lparr>sessionId := Some ''s1''\<rparr>, fresh_turn)
   \<and> handleEvent None ''1002'' (Connected (Some ''s1''))
        (said_hi\<lparr>sessionId := Some ''s1''\<rparr>, fresh_turn) =
       (said_hi\<lparr>sessionId := Some ''s1''\<rparr>, fresh_turn)\<close>
proof -
  have h: "truthy (sessionId bound_app)" by (simp add: bound_app_def truthy_def)
  have k: "\<not> truthy None \<and> truthy (Some ''s1'')" by (simp add: truthy_def)
  have s: "sessionId bound_app = Some ''s1''" by (simp add: bound_app_def)
  have q: "sessionId (said_hi\<lparr>sessionId := Some ''s1''\<rparr>) = Some ''s1''" by simp
  note t = session_is_bound_by_the_first_turn
  note t2 = t [THEN conjunct2, THEN conjunct1, THEN mp, OF h]
  note t5 = t [where sid = None and x = "Some ''s1''", THEN conjunct2, THEN conjunct2,
      THEN conjunct2, THEN conjunct2, THEN conjunct1, THEN mp, OF k]
  note t4 = t [THEN conjunct2, THEN conjunct2, THEN conjunct2, THEN conjunct1, THEN mp, OF q]
  show ?thesis
    by (rule conjI, rule h, rule conjI, simp only: t2 s, rule conjI, rule t5, rule t4)
qed

text \<open>
  Against C9 as stated: in the turn that binds the session, a second \<^verbatim>\<open>connected\<close>
  frame with another identifier replaces the first.
\<close>

theorem later_connected_event_replaces_the_session:
  \<open>sessionId (fst (handleSendMessage parseFrame 1000 1001
      (\<lambda>r. Body [''data: {"type":"connected","session_id":"s1"}\<newline>data: {"type":"connected","session_id":"s2"}\<newline>'']
             EndOfStream) hi_app)) = Some ''s2''\<close>
  by code_simp

text \<open>
  Claim C10 (empty submission). When the input consists of white space only (or is
  empty), the streaming handler and the handler of \<^verbatim>\<open>App.tsx\<close> return the state
  they were given and issue no request.
\<close>

theorem blank_input_is_a_no_op:
  assumes "\<forall>c \<in> set (inputValue a). is_space c"
  shows "handleSendMessage parse now1 now2 fetch a = (a, [])
     \<and> handleSendMessage_App now1 now3 fetch' a = (a, [])"
  using assms by (simp add: handleSendMessage_def handleSendMessage_App_def trim_empty_iff)

text \<open>An instance of C10: two blanks around a tab.\<close>

theorem blank_input_is_a_no_op_witness:
  "handleSendMessage parseFrame 1000 1001 (\<lambda>r. HttpError) blank_app = (blank_app, [])
   \<and> handleSendMessage_App 1000 1001 (\<lambda>r. ReplyHttpError) blank_app = (blank_app, [])"
proof -
  have h: "\<forall>c \<in> set (inputValue blank_app). is_space c"
    by (simp add: blank_app_def is_space_def)
  show ?thesis using blank_input_is_a_no_op [OF h] by simp
qed

end
